theory Spec2Isabelle
  imports Main
begin

section \<open>Values, callbacks and configuration\<close>

text \<open>
  The broker of \<^verbatim>\<open>event-bus\<close> stores values of type \<^verbatim>\<open>any\<close>. The code tells three
  kinds apart: \<^verbatim>\<open>undefined\<close>, \<^verbatim>\<open>null\<close> and everything else, so a stored value is one
  of these, over an arbitrary payload type.
\<close>

datatype 'a jsval = Undefined | Null | Val 'a

text \<open>\<^verbatim>\<open>value !== undefined && value !== null\<close>\<close>

fun present :: "'a jsval \<Rightarrow> bool" where
  "present Undefined = False"
| "present Null = False"
| "present (Val x) = True"

fun is_undefined :: "'a jsval \<Rightarrow> bool" where
  "is_undefined Undefined = True"
| "is_undefined Null = False"
| "is_undefined (Val x) = False"

text \<open>
  A callback handed to the broker (a hook, a subscriber, a listener) is opaque code.
  Its invocation is recorded in the trace of the state; what the broker sees of it is
  whether the call returns or throws, which may depend on the arguments.
  \<^verbatim>\<open>validate\<close> and \<^verbatim>\<open>transform\<close> are pure total functions of the value.
\<close>

datatype outcome = Returns | Throws

datatype StorageType = Memory | Session | Local

record 'a ChannelConfig =
  initialValue :: "'a jsval"
  storage :: "StorageType option"
  storageKey :: "string option"
  ttl :: "nat option"
  autoCleanup :: "bool option"
  onChange :: "('a jsval \<Rightarrow> 'a jsval \<Rightarrow> outcome) option"
  onInit :: "('a jsval \<Rightarrow> outcome) option"
  onClear :: "outcome option"
  validate :: "('a jsval \<Rightarrow> bool) option"
  transform :: "('a jsval \<Rightarrow> 'a jsval) option"
  debounce :: "nat option"
  throttle :: "nat option"

text \<open>The object literal \<^verbatim>\<open>{ initialValue: value }\<close>.\<close>

definition only_initialValue :: "'a jsval \<Rightarrow> 'a ChannelConfig" where
  "only_initialValue v =
     \<lparr>initialValue = v, storage = None, storageKey = None, ttl = None, autoCleanup = None,
      onChange = None, onInit = None, onClear = None, validate = None, transform = None,
      debounce = None, throttle = None\<rparr>"

text \<open>A subscriber is a function object: its identity is \<open>sub_id\<close>.\<close>

datatype 'a subscriber = Subscriber (sub_id: nat) (sub_run: "'a jsval \<Rightarrow> outcome")

record 'a Channel =
  signal :: "'a jsval"
  ch_storage :: StorageType
  ch_storageKey :: string
  subscribers :: "'a subscriber list"
  ch_ttl :: "nat option"
  ch_autoCleanup :: bool
  timeoutId :: "nat option"
  createdAt :: nat
  config :: "'a ChannelConfig option"
  isInitialized :: bool
  onChangeDebounceTimer :: "nat option"
  onChangeLastCall :: "nat option"

section \<open>Instant-event listeners\<close>

record 'a ListenerOptions =
  lo_validate :: "('a jsval \<Rightarrow> bool) option"
  lo_transform :: "('a jsval \<Rightarrow> 'a jsval) option"
  lo_debounce :: "nat option"
  lo_throttle :: "nat option"
  lo_once :: "bool option"

text \<open>The object literal \<^verbatim>\<open>{ once: true }\<close>.\<close>

definition only_once :: "'a ListenerOptions" where
  "only_once = \<lparr>lo_validate = None, lo_transform = None, lo_debounce = None,
                lo_throttle = None, lo_once = Some True\<rparr>"

text \<open>
  A caller's listener: \<open>l_id\<close> names the function, \<open>l_run\<close> tells whether a call with
  the given data throws, and \<open>l_registers\<close> lists the calls \<^verbatim>\<open>EventBus.on(name, fn, options)\<close>
  its body makes back into the broker before it returns or throws.
\<close>

datatype 'a listener =
  Listener (l_id: nat) (l_run: "'a jsval \<Rightarrow> outcome")
           (l_registers: "(string \<times> 'a listener \<times> 'a ListenerOptions option) list")

text \<open>
  The closure \<^verbatim>\<open>wrappedListener\<close> built by \<^verbatim>\<open>on\<close>: what it captures by value
  (the event name, the caller's listener, the options, the \<^verbatim>\<open>Set\<close> object
  \<^verbatim>\<open>listeners\<close>) and, under \<open>w_id\<close>, the cell holding its three mutable variables.
\<close>

record 'a WrappedListener =
  w_id :: nat
  w_eventName :: string
  w_listener :: "'a listener"
  w_options :: "'a ListenerOptions option"
  w_listeners :: nat

record wrapper_vars =
  debounceTimer :: "nat option"
  lastCallTime :: nat
  hasExecuted :: bool

section \<open>The state of the broker and of its environment\<close>

datatype 'a task =
    ClearChannel string
  | OnChangeCallback string "'a jsval \<Rightarrow> 'a jsval \<Rightarrow> outcome" "'a jsval" "'a jsval"
  | ListenerCallback "'a WrappedListener" "'a jsval"

record 'a timer =
  tm_id :: nat
  tm_due :: nat
  tm_task :: "'a task"

datatype 'a event =
    OnInitCalled string "'a jsval"
  | OnChangeCalled string "'a jsval" "'a jsval"
  | OnClearCalled string
  | SubscriberCalled string nat "'a jsval"
  | ListenerCalled nat nat "'a jsval"

datatype log = LogError string | LogWarn string | LogInfo string

record WebStorage =
  items :: "string \<rightharpoonup> string"
  unavailable :: bool

text \<open>
  The host that runs the timers. The delay passed to \<^verbatim>\<open>setTimeout\<close> is not the delay the
  timer gets: a browser converts it to a signed 32-bit integer, so that a delay from
  \<open>2^31\<close> on wraps around, and takes a negative delay as 0; Node.js takes a delay that is
  not between 1 and \<open>2^31 - 1\<close> as 1.
\<close>

datatype runtime = Browser | Node

definition TIMEOUT_MAX :: nat where
  "TIMEOUT_MAX = 2147483647"

definition timer_delay :: "runtime \<Rightarrow> nat \<Rightarrow> nat" where
  "timer_delay r delay =
     (case r of
        Browser \<Rightarrow> (let t = delay mod 4294967296 in if t \<le> TIMEOUT_MAX then t else 0)
      | Node \<Rightarrow> (if 1 \<le> delay \<and> delay \<le> TIMEOUT_MAX then delay else 1))"

text \<open>
  \<open>channels\<close> and \<open>eventListeners\<close> are the two static \<^verbatim>\<open>Map\<close>s, in insertion order;
  their values are references into \<open>objects\<close> (the \<^verbatim>\<open>Channel\<close> objects) and \<open>sets\<close>
  (the \<^verbatim>\<open>Set\<close> objects: a list of entries in insertion order, where a deleted entry
  stays as \<open>None\<close>, as in the \<^verbatim>\<open>SetData\<close> list of ECMAScript). \<open>vars\<close> holds the
  variables of each listener wrapper. The rest is the environment: the two Web Storage
  areas, \<^verbatim>\<open>JSON.parse\<close> and \<^verbatim>\<open>JSON.stringify\<close> (\<open>None\<close> when they throw), the host, the clock
  read by \<^verbatim>\<open>Date.now()\<close>, the pending timers, and what has been called and logged.
\<close>

record 'a bus =
  initialized :: bool
  channels :: "(string \<times> nat) list"
  objects :: "nat \<Rightarrow> 'a Channel"
  eventListeners :: "(string \<times> nat) list"
  sets :: "nat \<Rightarrow> 'a WrappedListener option list"
  vars :: "nat \<Rightarrow> wrapper_vars"
  next_ref :: nat
  sessionStorage :: WebStorage
  localStorage :: WebStorage
  JSON_parse :: "string \<Rightarrow> 'a jsval option"
  JSON_stringify :: "'a jsval \<Rightarrow> string option"
  runtime :: runtime
  now :: nat
  timers :: "'a timer list"
  next_timer :: nat
  trace :: "'a event list"
  console :: "log list"

definition console_error :: "string \<Rightarrow> 'a bus \<Rightarrow> 'a bus" where
  "console_error msg s = s\<lparr>console := console s @ [LogError msg]\<rparr>"

definition console_warn :: "string \<Rightarrow> 'a bus \<Rightarrow> 'a bus" where
  "console_warn msg s = s\<lparr>console := console s @ [LogWarn msg]\<rparr>"

definition console_log :: "string \<Rightarrow> 'a bus \<Rightarrow> 'a bus" where
  "console_log msg s = s\<lparr>console := console s @ [LogInfo msg]\<rparr>"

definition called :: "'a event \<Rightarrow> 'a bus \<Rightarrow> 'a bus" where
  "called e s = s\<lparr>trace := trace s @ [e]\<rparr>"

definition update_channel :: "nat \<Rightarrow> ('a Channel \<Rightarrow> 'a Channel) \<Rightarrow> 'a bus \<Rightarrow> 'a bus" where
  "update_channel a f s = s\<lparr>objects := (objects s)(a := f (objects s a))\<rparr>"

subsection \<open>Timers\<close>

text \<open>
  \<^verbatim>\<open>setTimeout\<close> returns a fresh handle, a positive integer, so a handle that is set
  is truthy; the timer is due after the delay the host makes of the one passed.
  \<^verbatim>\<open>clearTimeout\<close> on a handle that is no longer pending does nothing.
  \<open>clear_if_set\<close> is the idiom \<^verbatim>\<open>if (h) clearTimeout(h)\<close>.
\<close>

definition setTimeout :: "'a task \<Rightarrow> nat \<Rightarrow> 'a bus \<Rightarrow> nat \<times> 'a bus" where
  "setTimeout task delay s =
     (next_timer s,
      s\<lparr>timers := timers s @ [\<lparr>tm_id = next_timer s,
                                tm_due = now s + timer_delay (runtime s) delay, tm_task = task\<rparr>],
        next_timer := Suc (next_timer s)\<rparr>)"

definition clearTimeout :: "nat \<Rightarrow> 'a bus \<Rightarrow> 'a bus" where
  "clearTimeout h s = s\<lparr>timers := filter (\<lambda>t. tm_id t \<noteq> h) (timers s)\<rparr>"

definition clear_if_set :: "nat option \<Rightarrow> 'a bus \<Rightarrow> 'a bus" where
  "clear_if_set h s = (case h of None \<Rightarrow> s | Some t \<Rightarrow> clearTimeout t s)"

text \<open>An optional number of milliseconds, read as a number: 0 when it is not set.\<close>

fun ms :: "nat option \<Rightarrow> nat" where
  "ms None = 0"
| "ms (Some n) = n"

subsection \<open>Storage\<close>

definition store_of :: "StorageType \<Rightarrow> 'a bus \<Rightarrow> WebStorage" where
  "store_of st s = (if st = Session then sessionStorage s else localStorage s)"

definition set_store :: "StorageType \<Rightarrow> WebStorage \<Rightarrow> 'a bus \<Rightarrow> 'a bus" where
  "set_store st w s = (if st = Session then s\<lparr>sessionStorage := w\<rparr> else s\<lparr>localStorage := w\<rparr>)"

fun storage_name :: "StorageType \<Rightarrow> string" where
  "storage_name Memory = ''memory''"
| "storage_name Session = ''session''"
| "storage_name Local = ''local''"

definition getFromStorage :: "string \<Rightarrow> StorageType \<Rightarrow> 'a bus \<Rightarrow> 'a jsval \<times> 'a bus" where
  "getFromStorage key st s =
     (if st = Memory then (Undefined, s)
      else if unavailable (store_of st s)
      then (Undefined, console_error (''Error reading from '' @ storage_name st @ ''Storage:'') s)
      else (case items (store_of st s) key of
              None \<Rightarrow> (Undefined, s)
            | Some raw \<Rightarrow>
                if raw = [] then (Undefined, s)
                else (case JSON_parse s raw of
                        None \<Rightarrow> (Undefined,
                                 console_error (''Error reading from '' @ storage_name st @ ''Storage:'') s)
                      | Some v \<Rightarrow> (v, s))))"

definition saveToStorage :: "string \<Rightarrow> 'a jsval \<Rightarrow> StorageType \<Rightarrow> 'a bus \<Rightarrow> 'a bus" where
  "saveToStorage key v st s =
     (if st = Memory then s
      else if unavailable (store_of st s)
      then console_error (''Error writing to '' @ storage_name st @ ''Storage:'') s
      else (case JSON_stringify s v of
              None \<Rightarrow> console_error (''Error writing to '' @ storage_name st @ ''Storage:'') s
            | Some txt \<Rightarrow>
                set_store st ((store_of st s)\<lparr>items := (items (store_of st s))(key \<mapsto> txt)\<rparr>) s))"

definition removeFromStorage :: "string \<Rightarrow> StorageType \<Rightarrow> 'a bus \<Rightarrow> 'a bus" where
  "removeFromStorage key st s =
     (if st = Memory then s
      else if unavailable (store_of st s)
      then console_error (''Error removing from '' @ storage_name st @ ''Storage:'') s
      else set_store st ((store_of st s)\<lparr>items := (items (store_of st s))(key := None)\<rparr>) s)"

section \<open>Channels\<close>

text \<open>\<^verbatim>\<open>init\<close> registers the \<^verbatim>\<open>beforeunload\<close> handler once; the state keeps the flag.\<close>

definition init :: "'a bus \<Rightarrow> 'a bus" where
  "init s = (if initialized s then s else s\<lparr>initialized := True\<rparr>)"

definition run_onInit :: "string \<Rightarrow> ('a jsval \<Rightarrow> outcome) \<Rightarrow> 'a jsval \<Rightarrow> 'a bus \<Rightarrow> 'a bus" where
  "run_onInit channelName h v s =
     (let s1 = called (OnInitCalled channelName v) s
      in if h v = Throws
         then console_error (''Error in onInit for channel \"'' @ channelName @ ''\":'') s1
         else s1)"

text \<open>The destructuring of \<^verbatim>\<open>config || {}\<close> with its defaults.\<close>

definition initialValue_of :: "'a ChannelConfig option \<Rightarrow> 'a jsval" where
  "initialValue_of cfg = (case cfg of None \<Rightarrow> Undefined | Some c \<Rightarrow> initialValue c)"

definition storage_of :: "'a ChannelConfig option \<Rightarrow> StorageType" where
  "storage_of cfg =
     (case cfg of None \<Rightarrow> Memory | Some c \<Rightarrow> (case storage c of None \<Rightarrow> Memory | Some st \<Rightarrow> st))"

definition storageKey_of :: "string \<Rightarrow> 'a ChannelConfig option \<Rightarrow> string" where
  "storageKey_of channelName cfg =
     (case cfg of None \<Rightarrow> ''lithium:'' @ channelName
      | Some c \<Rightarrow> (case storageKey c of None \<Rightarrow> ''lithium:'' @ channelName | Some k \<Rightarrow> k))"

definition ttl_of :: "'a ChannelConfig option \<Rightarrow> nat option" where
  "ttl_of cfg = (case cfg of None \<Rightarrow> None | Some c \<Rightarrow> ttl c)"

definition autoCleanup_of :: "'a ChannelConfig option \<Rightarrow> bool" where
  "autoCleanup_of cfg =
     (case cfg of None \<Rightarrow> False | Some c \<Rightarrow> (case autoCleanup c of None \<Rightarrow> False | Some b \<Rightarrow> b))"

definition onInit_of :: "'a ChannelConfig option \<Rightarrow> ('a jsval \<Rightarrow> outcome) option" where
  "onInit_of cfg = (case cfg of None \<Rightarrow> None | Some c \<Rightarrow> onInit c)"

definition onChange_of :: "'a ChannelConfig option \<Rightarrow> ('a jsval \<Rightarrow> 'a jsval \<Rightarrow> outcome) option" where
  "onChange_of cfg = (case cfg of None \<Rightarrow> None | Some c \<Rightarrow> onChange c)"

definition onClear_of :: "'a ChannelConfig option \<Rightarrow> outcome option" where
  "onClear_of cfg = (case cfg of None \<Rightarrow> None | Some c \<Rightarrow> onClear c)"

definition validate_of :: "'a ChannelConfig option \<Rightarrow> ('a jsval \<Rightarrow> bool) option" where
  "validate_of cfg = (case cfg of None \<Rightarrow> None | Some c \<Rightarrow> validate c)"

definition transform_of :: "'a ChannelConfig option \<Rightarrow> ('a jsval \<Rightarrow> 'a jsval) option" where
  "transform_of cfg = (case cfg of None \<Rightarrow> None | Some c \<Rightarrow> transform c)"

text \<open>\<^verbatim>\<open>if (ttl) { channel.timeoutId = setTimeout(() => this.clear(channelName), ttl) }\<close>\<close>

definition schedule_ttl :: "string \<Rightarrow> nat \<Rightarrow> nat option \<Rightarrow> 'a bus \<Rightarrow> 'a bus" where
  "schedule_ttl channelName a t s =
     (if ms t = 0 then s
      else (let (h, s') = setTimeout (ClearChannel channelName) (ms t) s
            in update_channel a (\<lambda>c. c\<lparr>timeoutId := Some h\<rparr>) s'))"

text \<open>
  The object literal of the new \<^verbatim>\<open>Channel\<close>, and what \<^verbatim>\<open>channel\<close> does once the value is
  resolved: store the channel, set the TTL timer, run onInit.
\<close>

definition new_channel :: "string \<Rightarrow> 'a ChannelConfig option \<Rightarrow> 'a jsval \<Rightarrow> nat \<Rightarrow> 'a Channel" where
  "new_channel channelName cfg v t =
     \<lparr>signal = v, ch_storage = storage_of cfg, ch_storageKey = storageKey_of channelName cfg,
      subscribers = [], ch_ttl = ttl_of cfg, ch_autoCleanup = autoCleanup_of cfg,
      timeoutId = None, createdAt = t, config = cfg, isInitialized = present v,
      onChangeDebounceTimer = None, onChangeLastCall = None\<rparr>"

definition register_channel ::
  "string \<Rightarrow> 'a ChannelConfig option \<Rightarrow> 'a jsval \<Rightarrow> 'a bus \<Rightarrow> 'a bus" where
  "register_channel channelName cfg v s =
     (let a = next_ref s;
          s2 = s\<lparr>objects := (objects s)(a := new_channel channelName cfg v (now s)),
                  channels := channels s @ [(channelName, a)],
                  next_ref := Suc a\<rparr>;
          s3 = schedule_ttl channelName a (ttl_of cfg) s2
      in (case onInit_of cfg of
            None \<Rightarrow> s3
          | Some h \<Rightarrow> if present v then run_onInit channelName h v s3 else s3))"

definition channel :: "string \<Rightarrow> 'a ChannelConfig option \<Rightarrow> 'a bus \<Rightarrow> 'a bus" where
  "channel channelName cfg s0 =
     (let s = init s0 in
      if map_of (channels s) channelName \<noteq> None then s
      else
        let (storedValue, s1) = getFromStorage (storageKey_of channelName cfg) (storage_of cfg) s;
            v = (if \<not> is_undefined storedValue then storedValue else initialValue_of cfg)
        in register_channel channelName cfg v s1)"

definition run_onChange ::
  "string \<Rightarrow> ('a jsval \<Rightarrow> 'a jsval \<Rightarrow> outcome) \<Rightarrow> 'a jsval \<Rightarrow> 'a jsval \<Rightarrow> 'a bus \<Rightarrow> 'a bus" where
  "run_onChange channelName h newValue oldValue s =
     (let s1 = called (OnChangeCalled channelName newValue oldValue) s
      in if h newValue oldValue = Throws
         then console_error (''Error in onChange for channel \"'' @ channelName @ ''\":'') s1
         else s1)"

text \<open>
  \<^verbatim>\<open>executeOnChange\<close>; \<open>a\<close> is the \<^verbatim>\<open>Channel\<close> object passed in. A \<^verbatim>\<open>debounce\<close> or
  \<^verbatim>\<open>throttle\<close> of 0 is falsy, so it counts as not configured.
\<close>

definition executeOnChange ::
  "string \<Rightarrow> nat \<Rightarrow> 'a jsval \<Rightarrow> 'a jsval \<Rightarrow> 'a bus \<Rightarrow> 'a bus" where
  "executeOnChange channelName a newValue oldValue s =
     (case config (objects s a) of
        None \<Rightarrow> s
      | Some c \<Rightarrow>
         (case onChange c of
            None \<Rightarrow> s
          | Some h \<Rightarrow>
              if ms (debounce c) \<noteq> 0 then
                (let s1 = clear_if_set (onChangeDebounceTimer (objects s a)) s;
                     (t', s2) = setTimeout (OnChangeCallback channelName h newValue oldValue)
                                  (ms (debounce c)) s1
                 in update_channel a (\<lambda>c. c\<lparr>onChangeDebounceTimer := Some t'\<rparr>) s2)
              else if ms (throttle c) \<noteq> 0 then
                (let lastCall = ms (onChangeLastCall (objects s a));
                     timeSinceLastCall = int (now s) - int lastCall
                 in if timeSinceLastCall \<ge> int (ms (throttle c))
                    then run_onChange channelName h newValue oldValue
                           (update_channel a (\<lambda>c. c\<lparr>onChangeLastCall := Some (now s)\<rparr>) s)
                    else s)
              else run_onChange channelName h newValue oldValue s))"

fun notify :: "string \<Rightarrow> 'a subscriber list \<Rightarrow> 'a jsval \<Rightarrow> 'a bus \<Rightarrow> 'a bus" where
  "notify channelName [] v s = s"
| "notify channelName (cb # cbs) v s =
     notify channelName cbs v
       (let s1 = called (SubscriberCalled channelName (sub_id cb) v) s
        in if sub_run cb v = Throws
           then console_error (''Error in subscriber for channel \"'' @ channelName @ ''\":'') s1
           else s1)"

text \<open>Steps 4 to 6 of \<^verbatim>\<open>publish\<close>, and \<^verbatim>\<open>publish\<close>.\<close>

definition persist :: "nat \<Rightarrow> 'a jsval \<Rightarrow> 'a bus \<Rightarrow> 'a bus" where
  "persist a v s =
     (if ch_storage (objects s a) \<noteq> Memory
      then saveToStorage (ch_storageKey (objects s a)) v (ch_storage (objects s a)) s
      else console_log ''[EventBus.publish] Skipping storage (memory mode)'' s)"

definition first_value :: "string \<Rightarrow> nat \<Rightarrow> 'a ChannelConfig option \<Rightarrow> 'a jsval \<Rightarrow> 'a bus \<Rightarrow> 'a bus" where
  "first_value channelName a cfg v s =
     (if \<not> isInitialized (objects s a) \<and> present v
      then (let s' = update_channel a (\<lambda>c. c\<lparr>isInitialized := True\<rparr>) s
            in case onInit_of cfg of
                 None \<Rightarrow> s'
               | Some h \<Rightarrow> run_onInit channelName h v s')
      else s)"

definition changed ::
  "string \<Rightarrow> nat \<Rightarrow> 'a ChannelConfig option \<Rightarrow> 'a jsval \<Rightarrow> 'a jsval \<Rightarrow> 'a bus \<Rightarrow> 'a bus" where
  "changed channelName a cfg newValue oldValue s =
     (case onChange_of cfg of
        None \<Rightarrow> s
      | Some h \<Rightarrow> executeOnChange channelName a newValue oldValue s)"

definition publish :: "string \<Rightarrow> 'a jsval \<Rightarrow> 'a bus \<Rightarrow> 'a bus" where
  "publish channelName v s =
     (case map_of (channels s) channelName of
        None \<Rightarrow> channel channelName (Some (only_initialValue v)) s
      | Some a \<Rightarrow>
         (let oldValue = signal (objects s a);
              cfg = config (objects s a)
          in if (case validate_of cfg of None \<Rightarrow> False | Some ok \<Rightarrow> \<not> ok v)
             then console_warn (''Validation failed for channel \"'' @ channelName @ ''\"'') s
             else
               let transformedValue = (case transform_of cfg of None \<Rightarrow> v | Some f \<Rightarrow> f v);
                   s1 = update_channel a (\<lambda>c. c\<lparr>signal := transformedValue\<rparr>) s;
                   s2 = persist a transformedValue s1;
                   s3 = first_value channelName a cfg transformedValue s2;
                   s4 = changed channelName a cfg transformedValue oldValue s3
               in notify channelName (subscribers (objects s4 a)) transformedValue s4))"

text \<open>
  \<^verbatim>\<open>subscribe\<close> returns a closure over the \<^verbatim>\<open>Channel\<close> object, the name and the
  callback; \<open>unsubscribe\<close> is that closure, applied.
\<close>

definition subscribe :: "string \<Rightarrow> 'a subscriber \<Rightarrow> 'a bus \<Rightarrow> 'a bus" where
  "subscribe channelName cb s0 =
     (let s = (if map_of (channels s0) channelName = None then channel channelName None s0 else s0)
      in case map_of (channels s) channelName of
           None \<Rightarrow> s
         | Some a \<Rightarrow>
             update_channel a
               (\<lambda>c. if sub_id cb \<in> sub_id ` set (subscribers c) then c
                    else c\<lparr>subscribers := subscribers c @ [cb]\<rparr>) s)"

definition getValue :: "string \<Rightarrow> 'a bus \<Rightarrow> 'a jsval" where
  "getValue channelName s =
     (case map_of (channels s) channelName of
        None \<Rightarrow> Undefined
      | Some a \<Rightarrow> signal (objects s a))"

definition listChannels :: "'a bus \<Rightarrow> string list" where
  "listChannels s = map fst (channels s)"

text \<open>Step 1 of \<^verbatim>\<open>clear\<close>, and \<^verbatim>\<open>clear\<close>.\<close>

definition run_onClear :: "string \<Rightarrow> nat \<Rightarrow> 'a bus \<Rightarrow> 'a bus" where
  "run_onClear channelName a s =
     (case onClear_of (config (objects s a)) of
        None \<Rightarrow> s
      | Some r \<Rightarrow>
         (let s' = called (OnClearCalled channelName) s
          in if r = Throws
             then console_error (''Error in onClear for channel \"'' @ channelName @ ''\":'') s'
             else s'))"

definition clear :: "string \<Rightarrow> 'a bus \<Rightarrow> 'a bus" where
  "clear channelName s =
     (case map_of (channels s) channelName of
        None \<Rightarrow> s
      | Some a \<Rightarrow>
         (let s1 = run_onClear channelName a s;
              s2 = clear_if_set (timeoutId (objects s1 a)) s1;
              s3 = clear_if_set (onChangeDebounceTimer (objects s2 a)) s2;
              s4 = (if ch_storage (objects s3 a) \<noteq> Memory
                    then removeFromStorage (ch_storageKey (objects s3 a)) (ch_storage (objects s3 a)) s3
                    else s3);
              s5 = update_channel a (\<lambda>c. c\<lparr>subscribers := []\<rparr>) s4
          in s5\<lparr>channels := filter (\<lambda>(k, r). k \<noteq> channelName) (channels s5)\<rparr>))"

definition unsubscribe :: "nat \<Rightarrow> string \<Rightarrow> 'a subscriber \<Rightarrow> 'a bus \<Rightarrow> 'a bus" where
  "unsubscribe a channelName cb s =
     (let s1 = update_channel a
                 (\<lambda>c. c\<lparr>subscribers := filter (\<lambda>x. sub_id x \<noteq> sub_id cb) (subscribers c)\<rparr>) s
      in if ch_autoCleanup (objects s1 a) \<and> subscribers (objects s1 a) = []
         then clear channelName s1 else s1)"

section \<open>Instant events\<close>

text \<open>\<^verbatim>\<open>Set.prototype.size\<close>, \<^verbatim>\<open>add\<close> of a new object and \<^verbatim>\<open>delete\<close>.\<close>

definition set_size :: "'a WrappedListener option list \<Rightarrow> nat" where
  "set_size es = length (filter (\<lambda>e. e \<noteq> None) es)"

definition set_delete :: "nat \<Rightarrow> 'a WrappedListener option list \<Rightarrow> 'a WrappedListener option list" where
  "set_delete i es =
     map (\<lambda>e. case e of None \<Rightarrow> None | Some x \<Rightarrow> if w_id x = i then None else Some x) es"

definition on ::
  "string \<Rightarrow> 'a listener \<Rightarrow> 'a ListenerOptions option \<Rightarrow> 'a bus \<Rightarrow> 'a WrappedListener \<times> 'a bus" where
  "on eventName listener options s0 =
     (let (la, s) =
            (case map_of (eventListeners s0) eventName of
               Some la \<Rightarrow> (la, s0)
             | None \<Rightarrow> (next_ref s0,
                         s0\<lparr>sets := (sets s0)(next_ref s0 := []),
                            eventListeners := eventListeners s0 @ [(eventName, next_ref s0)],
                            next_ref := Suc (next_ref s0)\<rparr>));
          w = \<lparr>w_id = next_ref s, w_eventName = eventName, w_listener = listener,
               w_options = options, w_listeners = la\<rparr>
      in (w, s\<lparr>vars := (vars s)(next_ref s :=
                   \<lparr>debounceTimer = None, lastCallTime = 0, hasExecuted = False\<rparr>),
               sets := (sets s)(la := sets s la @ [Some w]),
               next_ref := Suc (next_ref s)\<rparr>))"

definition once :: "string \<Rightarrow> 'a listener \<Rightarrow> 'a bus \<Rightarrow> 'a WrappedListener \<times> 'a bus" where
  "once eventName listener s = on eventName listener (Some only_once) s"

definition off :: "string \<Rightarrow> 'a bus \<Rightarrow> 'a bus" where
  "off eventName s = s\<lparr>eventListeners := filter (\<lambda>(k, r). k \<noteq> eventName) (eventListeners s)\<rparr>"

text \<open>The closure \<^verbatim>\<open>unlisten\<close> that \<^verbatim>\<open>on\<close> returns, for the wrapper \<open>w\<close>.\<close>

definition unlisten :: "'a WrappedListener \<Rightarrow> 'a bus \<Rightarrow> 'a bus" where
  "unlisten w s =
     (let s1 = clear_if_set (debounceTimer (vars s (w_id w))) s;
          s2 = s1\<lparr>sets := (sets s1)(w_listeners w := set_delete (w_id w) (sets s1 (w_listeners w)))\<rparr>
      in if set_size (sets s2 (w_listeners w)) = 0
         then s2\<lparr>eventListeners := filter (\<lambda>(k, r). k \<noteq> w_eventName w) (eventListeners s2)\<rparr>
         else s2)"

definition is_once :: "'a ListenerOptions option \<Rightarrow> bool" where
  "is_once options = (case options of None \<Rightarrow> False | Some opt \<Rightarrow> lo_once opt = Some True)"

definition rejects :: "'a ListenerOptions option \<Rightarrow> 'a jsval \<Rightarrow> bool" where
  "rejects options d =
     (case options of None \<Rightarrow> False
      | Some opt \<Rightarrow> (case lo_validate opt of None \<Rightarrow> False | Some ok \<Rightarrow> \<not> ok d))"

definition transformed :: "'a ListenerOptions option \<Rightarrow> 'a jsval \<Rightarrow> 'a jsval" where
  "transformed options d =
     (case options of None \<Rightarrow> d
      | Some opt \<Rightarrow> (case lo_transform opt of None \<Rightarrow> d | Some f \<Rightarrow> f d))"

definition debounce_of :: "'a ListenerOptions option \<Rightarrow> nat" where
  "debounce_of options = (case options of None \<Rightarrow> 0 | Some opt \<Rightarrow> ms (lo_debounce opt))"

definition throttle_of :: "'a ListenerOptions option \<Rightarrow> nat" where
  "throttle_of options = (case options of None \<Rightarrow> 0 | Some opt \<Rightarrow> ms (lo_throttle opt))"

text \<open>
  The call \<^verbatim>\<open>listener(transformedData)\<close>: the call is recorded, then the body makes its
  registrations.
\<close>

definition call_listener :: "'a WrappedListener \<Rightarrow> 'a jsval \<Rightarrow> 'a bus \<Rightarrow> 'a bus" where
  "call_listener w d s =
     fold (\<lambda>r st. snd (on (fst r) (fst (snd r)) (snd (snd r)) st)) (l_registers (w_listener w))
       (called (ListenerCalled (w_id w) (l_id (w_listener w)) d) s)"

definition executeListener :: "'a WrappedListener \<Rightarrow> 'a jsval \<Rightarrow> 'a bus \<Rightarrow> 'a bus" where
  "executeListener w d s =
     (let s1 = call_listener w d s
      in if l_run (w_listener w) d = Throws
         then console_error (''Error in event listener for \"'' @ w_eventName w @ ''\":'') s1
         else
           let s2 = s1\<lparr>vars := (vars s1)(w_id w := (vars s1 (w_id w))\<lparr>hasExecuted := True\<rparr>)\<rparr>
           in if is_once (w_options w) then unlisten w s2 else s2)"

definition wrappedListener :: "'a WrappedListener \<Rightarrow> 'a jsval \<Rightarrow> 'a bus \<Rightarrow> 'a bus" where
  "wrappedListener w d s =
     (if is_once (w_options w) \<and> hasExecuted (vars s (w_id w)) then s
      else if rejects (w_options w) d then s
      else
        let transformedData = transformed (w_options w) d
        in if debounce_of (w_options w) \<noteq> 0 then
             (let s1 = clear_if_set (debounceTimer (vars s (w_id w))) s;
                  (t, s2) = setTimeout (ListenerCallback w transformedData)
                              (debounce_of (w_options w)) s1
              in s2\<lparr>vars := (vars s2)(w_id w := (vars s2 (w_id w))\<lparr>debounceTimer := Some t\<rparr>)\<rparr>)
           else if throttle_of (w_options w) \<noteq> 0 then
             (let timeSinceLastCall = int (now s) - int (lastCallTime (vars s (w_id w)))
              in if timeSinceLastCall \<ge> int (throttle_of (w_options w))
                 then executeListener w transformedData
                        (s\<lparr>vars := (vars s)(w_id w := (vars s (w_id w))\<lparr>lastCallTime := now s\<rparr>)\<rparr>)
                 else s)
           else executeListener w transformedData s)"

section \<open>What each step leaves unchanged\<close>

lemma console_error_fields [simp]:
  "initialized (console_error msg s) = initialized s"
  "channels (console_error msg s) = channels s"
  "objects (console_error msg s) = objects s"
  "eventListeners (console_error msg s) = eventListeners s"
  "sets (console_error msg s) = sets s"
  "vars (console_error msg s) = vars s"
  "next_ref (console_error msg s) = next_ref s"
  "sessionStorage (console_error msg s) = sessionStorage s"
  "localStorage (console_error msg s) = localStorage s"
  "JSON_parse (console_error msg s) = JSON_parse s"
  "JSON_stringify (console_error msg s) = JSON_stringify s"
  "runtime (console_error msg s) = runtime s"
  "now (console_error msg s) = now s"
  "timers (console_error msg s) = timers s"
  "next_timer (console_error msg s) = next_timer s"
  "trace (console_error msg s) = trace s"
  by (simp_all add: console_error_def)

lemma console_warn_fields [simp]:
  "initialized (console_warn msg s) = initialized s"
  "channels (console_warn msg s) = channels s"
  "objects (console_warn msg s) = objects s"
  "eventListeners (console_warn msg s) = eventListeners s"
  "sets (console_warn msg s) = sets s"
  "vars (console_warn msg s) = vars s"
  "next_ref (console_warn msg s) = next_ref s"
  "sessionStorage (console_warn msg s) = sessionStorage s"
  "localStorage (console_warn msg s) = localStorage s"
  "JSON_parse (console_warn msg s) = JSON_parse s"
  "JSON_stringify (console_warn msg s) = JSON_stringify s"
  "runtime (console_warn msg s) = runtime s"
  "now (console_warn msg s) = now s"
  "timers (console_warn msg s) = timers s"
  "next_timer (console_warn msg s) = next_timer s"
  "trace (console_warn msg s) = trace s"
  by (simp_all add: console_warn_def)

lemma console_log_fields [simp]:
  "initialized (console_log msg s) = initialized s"
  "channels (console_log msg s) = channels s"
  "objects (console_log msg s) = objects s"
  "eventListeners (console_log msg s) = eventListeners s"
  "sets (console_log msg s) = sets s"
  "vars (console_log msg s) = vars s"
  "next_ref (console_log msg s) = next_ref s"
  "sessionStorage (console_log msg s) = sessionStorage s"
  "localStorage (console_log msg s) = localStorage s"
  "JSON_parse (console_log msg s) = JSON_parse s"
  "JSON_stringify (console_log msg s) = JSON_stringify s"
  "runtime (console_log msg s) = runtime s"
  "now (console_log msg s) = now s"
  "timers (console_log msg s) = timers s"
  "next_timer (console_log msg s) = next_timer s"
  "trace (console_log msg s) = trace s"
  by (simp_all add: console_log_def)

lemma called_fields [simp]:
  "initialized (called e s) = initialized s"
  "channels (called e s) = channels s"
  "objects (called e s) = objects s"
  "eventListeners (called e s) = eventListeners s"
  "sets (called e s) = sets s"
  "vars (called e s) = vars s"
  "next_ref (called e s) = next_ref s"
  "sessionStorage (called e s) = sessionStorage s"
  "localStorage (called e s) = localStorage s"
  "JSON_parse (called e s) = JSON_parse s"
  "JSON_stringify (called e s) = JSON_stringify s"
  "runtime (called e s) = runtime s"
  "now (called e s) = now s"
  "timers (called e s) = timers s"
  "next_timer (called e s) = next_timer s"
  "console (called e s) = console s"
  by (simp_all add: called_def)

lemma update_channel_fields [simp]:
  "initialized (update_channel a f s) = initialized s"
  "channels (update_channel a f s) = channels s"
  "eventListeners (update_channel a f s) = eventListeners s"
  "sets (update_channel a f s) = sets s"
  "vars (update_channel a f s) = vars s"
  "next_ref (update_channel a f s) = next_ref s"
  "sessionStorage (update_channel a f s) = sessionStorage s"
  "localStorage (update_channel a f s) = localStorage s"
  "JSON_parse (update_channel a f s) = JSON_parse s"
  "JSON_stringify (update_channel a f s) = JSON_stringify s"
  "runtime (update_channel a f s) = runtime s"
  "now (update_channel a f s) = now s"
  "timers (update_channel a f s) = timers s"
  "next_timer (update_channel a f s) = next_timer s"
  "trace (update_channel a f s) = trace s"
  "console (update_channel a f s) = console s"
  by (simp_all add: update_channel_def)

lemma clearTimeout_fields [simp]:
  "initialized (clearTimeout h s) = initialized s"
  "channels (clearTimeout h s) = channels s"
  "objects (clearTimeout h s) = objects s"
  "eventListeners (clearTimeout h s) = eventListeners s"
  "sets (clearTimeout h s) = sets s"
  "vars (clearTimeout h s) = vars s"
  "next_ref (clearTimeout h s) = next_ref s"
  "sessionStorage (clearTimeout h s) = sessionStorage s"
  "localStorage (clearTimeout h s) = localStorage s"
  "JSON_parse (clearTimeout h s) = JSON_parse s"
  "JSON_stringify (clearTimeout h s) = JSON_stringify s"
  "runtime (clearTimeout h s) = runtime s"
  "now (clearTimeout h s) = now s"
  "next_timer (clearTimeout h s) = next_timer s"
  "trace (clearTimeout h s) = trace s"
  "console (clearTimeout h s) = console s"
  by (simp_all add: clearTimeout_def)

lemma clear_if_set_fields [simp]:
  "initialized (clear_if_set h s) = initialized s"
  "channels (clear_if_set h s) = channels s"
  "objects (clear_if_set h s) = objects s"
  "eventListeners (clear_if_set h s) = eventListeners s"
  "sets (clear_if_set h s) = sets s"
  "vars (clear_if_set h s) = vars s"
  "next_ref (clear_if_set h s) = next_ref s"
  "sessionStorage (clear_if_set h s) = sessionStorage s"
  "localStorage (clear_if_set h s) = localStorage s"
  "JSON_parse (clear_if_set h s) = JSON_parse s"
  "JSON_stringify (clear_if_set h s) = JSON_stringify s"
  "runtime (clear_if_set h s) = runtime s"
  "now (clear_if_set h s) = now s"
  "next_timer (clear_if_set h s) = next_timer s"
  "trace (clear_if_set h s) = trace s"
  "console (clear_if_set h s) = console s"
  by (simp_all add: clear_if_set_def split: option.splits)

lemma setTimeout_fields [simp]:
  "initialized (snd (setTimeout task delay s)) = initialized s"
  "channels (snd (setTimeout task delay s)) = channels s"
  "objects (snd (setTimeout task delay s)) = objects s"
  "eventListeners (snd (setTimeout task delay s)) = eventListeners s"
  "sets (snd (setTimeout task delay s)) = sets s"
  "vars (snd (setTimeout task delay s)) = vars s"
  "next_ref (snd (setTimeout task delay s)) = next_ref s"
  "sessionStorage (snd (setTimeout task delay s)) = sessionStorage s"
  "localStorage (snd (setTimeout task delay s)) = localStorage s"
  "JSON_parse (snd (setTimeout task delay s)) = JSON_parse s"
  "JSON_stringify (snd (setTimeout task delay s)) = JSON_stringify s"
  "runtime (snd (setTimeout task delay s)) = runtime s"
  "now (snd (setTimeout task delay s)) = now s"
  "trace (snd (setTimeout task delay s)) = trace s"
  "console (snd (setTimeout task delay s)) = console s"
  by (simp_all add: setTimeout_def)

lemma removeFromStorage_fields [simp]:
  "initialized (removeFromStorage key st s) = initialized s"
  "channels (removeFromStorage key st s) = channels s"
  "objects (removeFromStorage key st s) = objects s"
  "eventListeners (removeFromStorage key st s) = eventListeners s"
  "sets (removeFromStorage key st s) = sets s"
  "vars (removeFromStorage key st s) = vars s"
  "next_ref (removeFromStorage key st s) = next_ref s"
  "JSON_parse (removeFromStorage key st s) = JSON_parse s"
  "JSON_stringify (removeFromStorage key st s) = JSON_stringify s"
  "runtime (removeFromStorage key st s) = runtime s"
  "now (removeFromStorage key st s) = now s"
  "timers (removeFromStorage key st s) = timers s"
  "next_timer (removeFromStorage key st s) = next_timer s"
  "trace (removeFromStorage key st s) = trace s"
  by (simp_all add: removeFromStorage_def set_store_def)

lemma saveToStorage_fields [simp]:
  "initialized (saveToStorage key v st s) = initialized s"
  "channels (saveToStorage key v st s) = channels s"
  "objects (saveToStorage key v st s) = objects s"
  "eventListeners (saveToStorage key v st s) = eventListeners s"
  "sets (saveToStorage key v st s) = sets s"
  "vars (saveToStorage key v st s) = vars s"
  "next_ref (saveToStorage key v st s) = next_ref s"
  "JSON_parse (saveToStorage key v st s) = JSON_parse s"
  "JSON_stringify (saveToStorage key v st s) = JSON_stringify s"
  "runtime (saveToStorage key v st s) = runtime s"
  "now (saveToStorage key v st s) = now s"
  "timers (saveToStorage key v st s) = timers s"
  "next_timer (saveToStorage key v st s) = next_timer s"
  "trace (saveToStorage key v st s) = trace s"
  by (simp_all add: saveToStorage_def set_store_def split: option.splits)

lemma getFromStorage_fields [simp]:
  "initialized (snd (getFromStorage key st s)) = initialized s"
  "channels (snd (getFromStorage key st s)) = channels s"
  "objects (snd (getFromStorage key st s)) = objects s"
  "eventListeners (snd (getFromStorage key st s)) = eventListeners s"
  "sets (snd (getFromStorage key st s)) = sets s"
  "vars (snd (getFromStorage key st s)) = vars s"
  "next_ref (snd (getFromStorage key st s)) = next_ref s"
  "sessionStorage (snd (getFromStorage key st s)) = sessionStorage s"
  "localStorage (snd (getFromStorage key st s)) = localStorage s"
  "JSON_parse (snd (getFromStorage key st s)) = JSON_parse s"
  "JSON_stringify (snd (getFromStorage key st s)) = JSON_stringify s"
  "runtime (snd (getFromStorage key st s)) = runtime s"
  "now (snd (getFromStorage key st s)) = now s"
  "timers (snd (getFromStorage key st s)) = timers s"
  "next_timer (snd (getFromStorage key st s)) = next_timer s"
  "trace (snd (getFromStorage key st s)) = trace s"
  by (simp_all add: getFromStorage_def split: option.splits)

lemma init_fields [simp]:
  "channels (init s) = channels s"
  "objects (init s) = objects s"
  "eventListeners (init s) = eventListeners s"
  "sets (init s) = sets s"
  "vars (init s) = vars s"
  "next_ref (init s) = next_ref s"
  "sessionStorage (init s) = sessionStorage s"
  "localStorage (init s) = localStorage s"
  "JSON_parse (init s) = JSON_parse s"
  "JSON_stringify (init s) = JSON_stringify s"
  "runtime (init s) = runtime s"
  "now (init s) = now s"
  "timers (init s) = timers s"
  "next_timer (init s) = next_timer s"
  "trace (init s) = trace s"
  "console (init s) = console s"
  by (simp_all add: init_def)

lemma run_onInit_fields [simp]:
  "initialized (run_onInit n h v s) = initialized s"
  "channels (run_onInit n h v s) = channels s"
  "objects (run_onInit n h v s) = objects s"
  "eventListeners (run_onInit n h v s) = eventListeners s"
  "sets (run_onInit n h v s) = sets s"
  "vars (run_onInit n h v s) = vars s"
  "next_ref (run_onInit n h v s) = next_ref s"
  "sessionStorage (run_onInit n h v s) = sessionStorage s"
  "localStorage (run_onInit n h v s) = localStorage s"
  "JSON_parse (run_onInit n h v s) = JSON_parse s"
  "JSON_stringify (run_onInit n h v s) = JSON_stringify s"
  "runtime (run_onInit n h v s) = runtime s"
  "now (run_onInit n h v s) = now s"
  "timers (run_onInit n h v s) = timers s"
  "next_timer (run_onInit n h v s) = next_timer s"
  by (simp_all add: run_onInit_def Let_def)

lemma run_onChange_fields [simp]:
  "initialized (run_onChange n h v v' s) = initialized s"
  "channels (run_onChange n h v v' s) = channels s"
  "objects (run_onChange n h v v' s) = objects s"
  "eventListeners (run_onChange n h v v' s) = eventListeners s"
  "sets (run_onChange n h v v' s) = sets s"
  "vars (run_onChange n h v v' s) = vars s"
  "next_ref (run_onChange n h v v' s) = next_ref s"
  "sessionStorage (run_onChange n h v v' s) = sessionStorage s"
  "localStorage (run_onChange n h v v' s) = localStorage s"
  "JSON_parse (run_onChange n h v v' s) = JSON_parse s"
  "JSON_stringify (run_onChange n h v v' s) = JSON_stringify s"
  "runtime (run_onChange n h v v' s) = runtime s"
  "now (run_onChange n h v v' s) = now s"
  "timers (run_onChange n h v v' s) = timers s"
  "next_timer (run_onChange n h v v' s) = next_timer s"
  by (simp_all add: run_onChange_def Let_def)

lemma run_onClear_fields [simp]:
  "initialized (run_onClear n a s) = initialized s"
  "channels (run_onClear n a s) = channels s"
  "objects (run_onClear n a s) = objects s"
  "eventListeners (run_onClear n a s) = eventListeners s"
  "sets (run_onClear n a s) = sets s"
  "vars (run_onClear n a s) = vars s"
  "next_ref (run_onClear n a s) = next_ref s"
  "sessionStorage (run_onClear n a s) = sessionStorage s"
  "localStorage (run_onClear n a s) = localStorage s"
  "JSON_parse (run_onClear n a s) = JSON_parse s"
  "JSON_stringify (run_onClear n a s) = JSON_stringify s"
  "runtime (run_onClear n a s) = runtime s"
  "now (run_onClear n a s) = now s"
  "timers (run_onClear n a s) = timers s"
  "next_timer (run_onClear n a s) = next_timer s"
  by (simp_all add: run_onClear_def Let_def split: option.splits)

lemma persist_fields [simp]:
  "initialized (persist a v s) = initialized s"
  "channels (persist a v s) = channels s"
  "objects (persist a v s) = objects s"
  "eventListeners (persist a v s) = eventListeners s"
  "sets (persist a v s) = sets s"
  "vars (persist a v s) = vars s"
  "next_ref (persist a v s) = next_ref s"
  "JSON_parse (persist a v s) = JSON_parse s"
  "JSON_stringify (persist a v s) = JSON_stringify s"
  "runtime (persist a v s) = runtime s"
  "now (persist a v s) = now s"
  "timers (persist a v s) = timers s"
  "next_timer (persist a v s) = next_timer s"
  "trace (persist a v s) = trace s"
  by (simp_all add: persist_def)

lemma first_value_fields [simp]:
  "initialized (first_value n a cfg v s) = initialized s"
  "channels (first_value n a cfg v s) = channels s"
  "eventListeners (first_value n a cfg v s) = eventListeners s"
  "sets (first_value n a cfg v s) = sets s"
  "vars (first_value n a cfg v s) = vars s"
  "next_ref (first_value n a cfg v s) = next_ref s"
  "sessionStorage (first_value n a cfg v s) = sessionStorage s"
  "localStorage (first_value n a cfg v s) = localStorage s"
  "JSON_parse (first_value n a cfg v s) = JSON_parse s"
  "JSON_stringify (first_value n a cfg v s) = JSON_stringify s"
  "runtime (first_value n a cfg v s) = runtime s"
  "now (first_value n a cfg v s) = now s"
  "timers (first_value n a cfg v s) = timers s"
  "next_timer (first_value n a cfg v s) = next_timer s"
  by (simp_all add: first_value_def Let_def split: option.splits)

lemma notify_fields [simp]:
  "initialized (notify n cbs v s) = initialized s"
  "channels (notify n cbs v s) = channels s"
  "objects (notify n cbs v s) = objects s"
  "eventListeners (notify n cbs v s) = eventListeners s"
  "sets (notify n cbs v s) = sets s"
  "vars (notify n cbs v s) = vars s"
  "next_ref (notify n cbs v s) = next_ref s"
  "sessionStorage (notify n cbs v s) = sessionStorage s"
  "localStorage (notify n cbs v s) = localStorage s"
  "JSON_parse (notify n cbs v s) = JSON_parse s"
  "JSON_stringify (notify n cbs v s) = JSON_stringify s"
  "runtime (notify n cbs v s) = runtime s"
  "now (notify n cbs v s) = now s"
  "timers (notify n cbs v s) = timers s"
  "next_timer (notify n cbs v s) = next_timer s"
  by (induction cbs arbitrary: s; simp add: Let_def)+

section \<open>The loop of emit\<close>

text \<open>
  \<^verbatim>\<open>listeners.forEach\<close> walks the entries of the \<^verbatim>\<open>Set\<close> object by index and reads its
  length again after each call, so an entry appended during the walk is visited. The walk
  ends because a listener can only register listeners that are part of its own body:
  the weight of the entries still to visit decreases.
\<close>

fun slot_weight :: "'a WrappedListener option \<Rightarrow> nat" where
  "slot_weight None = 1"
| "slot_weight (Some w) = Suc (size (w_listener w))"

definition pending_weight :: "nat \<Rightarrow> nat \<Rightarrow> 'a bus \<Rightarrow> nat" where
  "pending_weight la k s = sum_list (map slot_weight (drop k (sets s la)))"

lemma weight_drop_single:
  "sum_list (map slot_weight (drop j [e])) \<le> m + slot_weight e"
  by (cases j) simp_all

lemma weight_drop_append:
  "sum_list (map slot_weight (drop k (es @ [e])))
     \<le> sum_list (map slot_weight (drop k es)) + slot_weight e"
  using weight_drop_single [of "k - length es" e 0] by simp

lemma pending_weight_on:
  "pending_weight la k (snd (on n l opt s)) \<le> pending_weight la k s + Suc (size l)"
proof (cases "map_of (eventListeners s) n")
  case None
  show ?thesis
  proof (cases "la = next_ref s")
    case True
    then show ?thesis
      using weight_drop_single [of k "Some \<lparr>w_id = Suc (next_ref s), w_eventName = n,
               w_listener = l, w_options = opt, w_listeners = next_ref s\<rparr>"
               "sum_list (map slot_weight (drop k (sets s (next_ref s))))"]
      by (simp add: on_def Let_def None pending_weight_def)
  next
    case False
    then show ?thesis by (simp add: on_def Let_def None pending_weight_def)
  qed
next
  case (Some lb)
  show ?thesis
  proof (cases "la = lb")
    case True
    then show ?thesis
      using weight_drop_append [of k "sets s lb" "Some \<lparr>w_id = next_ref s, w_eventName = n,
               w_listener = l, w_options = opt, w_listeners = lb\<rparr>"]
      by (simp add: on_def Let_def Some pending_weight_def)
  next
    case False
    then show ?thesis by (simp add: on_def Let_def Some pending_weight_def)
  qed
qed

definition regs_weight :: "(string \<times> 'a listener \<times> 'a ListenerOptions option) list \<Rightarrow> nat" where
  "regs_weight rs = sum_list (map (\<lambda>r. Suc (size (fst (snd r)))) rs)"

lemma pending_weight_registrations:
  "pending_weight la k (fold (\<lambda>r st. snd (on (fst r) (fst (snd r)) (snd (snd r)) st)) rs s)
     \<le> pending_weight la k s + regs_weight rs"
proof (induction rs arbitrary: s)
  case Nil
  then show ?case by (simp add: regs_weight_def)
next
  case (Cons r rs)
  have "pending_weight la k (fold (\<lambda>r st. snd (on (fst r) (fst (snd r)) (snd (snd r)) st)) rs
            (snd (on (fst r) (fst (snd r)) (snd (snd r)) s)))
        \<le> pending_weight la k (snd (on (fst r) (fst (snd r)) (snd (snd r)) s)) + regs_weight rs"
    by (rule Cons.IH)
  also have "\<dots> \<le> (pending_weight la k s + Suc (size (fst (snd r)))) + regs_weight rs"
    using pending_weight_on [of la k "fst r" "fst (snd r)" "snd (snd r)" s] by simp
  finally show ?case by (simp add: regs_weight_def)
qed

lemma regs_weight_size: "regs_weight (l_registers l) < size l"
proof -
  have "regs_weight rs \<le> size_list (size_prod (\<lambda>x. 0) (size_prod size size)) rs"
    for rs :: "(string \<times> 'a listener \<times> 'a ListenerOptions option) list"
    by (induction rs) (auto simp: regs_weight_def)
  then show ?thesis by (cases l) (simp add: less_Suc_eq_le)
qed

lemma pending_weight_frame:
  "sets s' = sets s \<Longrightarrow> pending_weight la k s' = pending_weight la k s"
  by (simp add: pending_weight_def)

lemma pending_weight_call_listener:
  "pending_weight la k (call_listener w d s) \<le> pending_weight la k s + size (w_listener w)"
proof -
  have "pending_weight la k (call_listener w d s)
          \<le> pending_weight la k (called (ListenerCalled (w_id w) (l_id (w_listener w)) d) s)
             + regs_weight (l_registers (w_listener w))"
    unfolding call_listener_def by (rule pending_weight_registrations)
  also have "\<dots> = pending_weight la k s + regs_weight (l_registers (w_listener w))"
    by (simp add: pending_weight_def)
  finally show ?thesis
    using regs_weight_size [of "w_listener w"] by simp
qed

lemma weight_set_delete:
  "sum_list (map slot_weight (drop k (set_delete i es))) \<le> sum_list (map slot_weight (drop k es))"
proof -
  have "sum_list (map slot_weight (drop k (set_delete i es)))
        = sum_list (map (\<lambda>e. slot_weight (case e of None \<Rightarrow> None
                                | Some x \<Rightarrow> if w_id x = i then None else Some x)) (drop k es))"
    by (simp add: set_delete_def drop_map comp_def)
  also have "\<dots> \<le> sum_list (map slot_weight (drop k es))"
    by (rule sum_list_mono) (simp split: option.splits)
  finally show ?thesis .
qed

lemma pending_weight_unlisten:
  "pending_weight la k (unlisten w s) \<le> pending_weight la k s"
  using weight_set_delete [of k "w_id w" "sets s la"]
  by (cases "la = w_listeners w") (simp_all add: unlisten_def Let_def pending_weight_def)

lemma pending_weight_executeListener:
  "pending_weight la k (executeListener w d s) \<le> pending_weight la k s + size (w_listener w)"
proof -
  let ?s1 = "call_listener w d s"
  let ?s2 = "?s1\<lparr>vars := (vars ?s1)(w_id w := (vars ?s1 (w_id w))\<lparr>hasExecuted := True\<rparr>)\<rparr>"
  have a: "pending_weight la k ?s2 = pending_weight la k ?s1"
    by (simp add: pending_weight_def)
  have b: "pending_weight la k (unlisten w ?s2) \<le> pending_weight la k ?s1"
    using pending_weight_unlisten [of la k w ?s2] a by simp
  have c: "pending_weight la k (console_error m ?s1) = pending_weight la k ?s1" for m
    by (simp add: pending_weight_def)
  show ?thesis
    using a b c pending_weight_call_listener [of la k w d s]
    by (simp add: executeListener_def Let_def)
qed

lemma pending_weight_wrappedListener:
  "pending_weight la k (wrappedListener w d s) \<le> pending_weight la k s + size (w_listener w)"
proof -
  have a: "pending_weight la k (s\<lparr>vars := v\<rparr>) = pending_weight la k s" for v
    by (simp add: pending_weight_def)
  have b: "pending_weight la k
             ((snd (setTimeout t dl (clear_if_set h s)))\<lparr>vars := v\<rparr>) = pending_weight la k s"
    for t dl h v
    by (simp add: pending_weight_def)
  show ?thesis
    using pending_weight_executeListener [of la k w "transformed (w_options w) d" s]
      pending_weight_executeListener [of la k w "transformed (w_options w) d"
        "s\<lparr>vars := (vars s)(w_id w := (vars s (w_id w))\<lparr>lastCallTime := now s\<rparr>)\<rparr>"]
    by (simp add: wrappedListener_def Let_def a b split_beta)
qed

function forEach :: "nat \<Rightarrow> nat \<Rightarrow> 'a jsval \<Rightarrow> 'a bus \<Rightarrow> 'a bus" where
  "forEach la index d s =
     (if index < length (sets s la)
      then (case sets s la ! index of
              None \<Rightarrow> forEach la (Suc index) d s
            | Some w \<Rightarrow> forEach la (Suc index) d (wrappedListener w d s))
      else s)"
  by pat_completeness auto
termination
proof (relation "measure (\<lambda>(la, index, d, s). pending_weight la index s)")
  show "wf (measure (\<lambda>(la, index, d, s). pending_weight la index s))" by simp
next
  fix la index :: nat and d :: "'a jsval" and s :: "'a bus"
  assume "index < length (sets s la)" "sets s la ! index = None"
  then show "((la, Suc index, d, s), (la, index, d, s))
               \<in> measure (\<lambda>(la, index, d, s). pending_weight la index s)"
    by (simp add: pending_weight_def Cons_nth_drop_Suc [symmetric])
next
  fix la index :: nat and d :: "'a jsval" and s :: "'a bus" and w
  assume "index < length (sets s la)" "sets s la ! index = Some w"
  then have "pending_weight la index s = Suc (size (w_listener w)) + pending_weight la (Suc index) s"
    by (simp add: pending_weight_def Cons_nth_drop_Suc [symmetric])
  then show "((la, Suc index, d, wrappedListener w d s), (la, index, d, s))
               \<in> measure (\<lambda>(la, index, d, s). pending_weight la index s)"
    using pending_weight_wrappedListener [of la "Suc index" w d s] by simp
qed

declare forEach.simps [simp del]

definition emit :: "string \<Rightarrow> 'a jsval \<Rightarrow> 'a bus \<Rightarrow> 'a bus" where
  "emit eventName d s =
     (case map_of (eventListeners s) eventName of
        None \<Rightarrow> s
      | Some la \<Rightarrow> if set_size (sets s la) = 0 then s else forEach la 0 d s)"


section \<open>The event loop: timers coming due\<close>

text \<open>
  A pending timer runs when the clock reaches its due time, the earliest first and, among
  timers due at the same time, the one set first. \<open>advance T\<close> lets the time pass until \<open>T\<close>.
\<close>

definition run_task :: "'a task \<Rightarrow> 'a bus \<Rightarrow> 'a bus" where
  "run_task t s =
     (case t of
        ClearChannel channelName \<Rightarrow> clear channelName s
      | OnChangeCallback channelName h newValue oldValue \<Rightarrow>
          run_onChange channelName h newValue oldValue s
      | ListenerCallback w d \<Rightarrow> executeListener w d s)"

fun earliest :: "'a timer list \<Rightarrow> 'a timer option" where
  "earliest [] = None"
| "earliest (t # ts) =
     (case earliest ts of
        None \<Rightarrow> Some t
      | Some u \<Rightarrow> if tm_due t \<le> tm_due u then Some t else Some u)"

definition next_due :: "nat \<Rightarrow> 'a bus \<Rightarrow> 'a timer option" where
  "next_due T s = earliest (filter (\<lambda>t. tm_due t \<le> T) (timers s))"

definition fire :: "'a timer \<Rightarrow> 'a bus \<Rightarrow> 'a bus" where
  "fire t s =
     run_task (tm_task t)
       (s\<lparr>timers := filter (\<lambda>u. tm_id u \<noteq> tm_id t) (timers s),
          now := max (now s) (tm_due t)\<rparr>)"

lemma timers_on [simp]: "timers (snd (on n l opt s)) = timers s"
  by (simp add: on_def Let_def split: option.splits)

lemma timers_registrations [simp]:
  "timers (fold (\<lambda>r st. snd (on (fst r) (fst (snd r)) (snd (snd r)) st)) rs s) = timers s"
  by (induction rs arbitrary: s) simp_all

lemma timers_call_listener [simp]: "timers (call_listener w d s) = timers s"
  by (simp add: call_listener_def)

lemma length_timers_clear_if_set: "length (timers (clear_if_set h s)) \<le> length (timers s)"
  by (simp add: clear_if_set_def clearTimeout_def split: option.splits)

lemma length_timers_unlisten: "length (timers (unlisten w s)) \<le> length (timers s)"
  by (simp add: unlisten_def Let_def length_timers_clear_if_set)

lemma length_timers_executeListener:
  "length (timers (executeListener w d s)) \<le> length (timers s)"
  using length_timers_unlisten
          [of w "(call_listener w d s)\<lparr>vars := (vars (call_listener w d s))
                   (w_id w := (vars (call_listener w d s) (w_id w))\<lparr>hasExecuted := True\<rparr>)\<rparr>"]
  by (simp add: executeListener_def Let_def)

lemma length_timers_clear: "length (timers (clear n s)) \<le> length (timers s)"
proof (cases "map_of (channels s) n")
  case None
  then show ?thesis by (simp add: clear_def)
next
  case (Some a)
  have "length (timers (clear_if_set h2 (clear_if_set h1 (run_onClear n a s)))) \<le> length (timers s)"
    for h1 h2
    using length_timers_clear_if_set [of h2 "clear_if_set h1 (run_onClear n a s)"]
      length_timers_clear_if_set [of h1 "run_onClear n a s"]
    by simp
  then show ?thesis by (simp add: clear_def Let_def Some)
qed

lemma length_timers_run_task: "length (timers (run_task t s)) \<le> length (timers s)"
  by (cases t) (simp_all add: run_task_def length_timers_clear length_timers_executeListener)

lemma earliest_mem: "earliest ts = Some t \<Longrightarrow> t \<in> set ts"
  by (induction ts arbitrary: t) (auto split: option.splits if_splits)

lemma next_due_mem: "next_due T s = Some t \<Longrightarrow> t \<in> set (timers s) \<and> tm_due t \<le> T"
  using earliest_mem [of "filter (\<lambda>t. tm_due t \<le> T) (timers s)" t]
  by (simp add: next_due_def)

lemma length_timers_fire:
  assumes "t \<in> set (timers s)"
  shows "length (timers (fire t s)) < length (timers s)"
proof -
  have "length (filter (\<lambda>u. tm_id u \<noteq> tm_id t) (timers s)) < length (timers s)"
    using assms by (simp add: length_filter_less)
  then show ?thesis
    using length_timers_run_task [of "tm_task t"
            "s\<lparr>timers := filter (\<lambda>u. tm_id u \<noteq> tm_id t) (timers s), now := max (now s) (tm_due t)\<rparr>"]
    by (simp add: fire_def)
qed

function advance :: "nat \<Rightarrow> 'a bus \<Rightarrow> 'a bus" where
  "advance T s =
     (case next_due T s of
        None \<Rightarrow> s\<lparr>now := max (now s) T\<rparr>
      | Some t \<Rightarrow> advance T (fire t s))"
  by pat_completeness auto
termination
  by (relation "measure (\<lambda>(T, s). length (timers s))")
     (auto dest: next_due_mem intro: length_timers_fire)

declare advance.simps [simp del]

section \<open>Programs\<close>

text \<open>
  The calls a program can make on the bus, and time passing. The closures returned by
  \<^verbatim>\<open>subscribe\<close> and \<^verbatim>\<open>on\<close> are calls of their own. \<^verbatim>\<open>clearAll\<close> and the
  \<^verbatim>\<open>beforeunload\<close> handler are sequences of \<^verbatim>\<open>clear\<close>; the readers change nothing.
\<close>

datatype 'a call =
    Call_channel string "'a ChannelConfig option"
  | Call_publish string "'a jsval"
  | Call_subscribe string "'a subscriber"
  | Call_unsubscribe nat string "'a subscriber"
  | Call_clear string
  | Call_emit string "'a jsval"
  | Call_on string "'a listener" "'a ListenerOptions option"
  | Call_once string "'a listener"
  | Call_off string
  | Call_unlisten "'a WrappedListener"
  | Time_passes nat

fun perform :: "'a call \<Rightarrow> 'a bus \<Rightarrow> 'a bus" where
  "perform (Call_channel n cfg) s = channel n cfg s"
| "perform (Call_publish n v) s = publish n v s"
| "perform (Call_subscribe n cb) s = subscribe n cb s"
| "perform (Call_unsubscribe a n cb) s = unsubscribe a n cb s"
| "perform (Call_clear n) s = clear n s"
| "perform (Call_emit n d) s = emit n d s"
| "perform (Call_on n l opt) s = snd (on n l opt s)"
| "perform (Call_once n l) s = snd (once n l s)"
| "perform (Call_off n) s = off n s"
| "perform (Call_unlisten w) s = unlisten w s"
| "perform (Time_passes T) s = advance (now s + T) s"

text \<open>The state when the module has been loaded, and the states a program can reach.\<close>

definition loaded :: "'a bus \<Rightarrow> bool" where
  "loaded s \<longleftrightarrow>
     \<not> initialized s \<and> channels s = [] \<and> eventListeners s = [] \<and> sets s = (\<lambda>_. [])
     \<and> next_ref s = 0 \<and> timers s = [] \<and> trace s = []"

definition reachable :: "'a bus \<Rightarrow> bool" where
  "reachable s \<longleftrightarrow> (\<exists>s0 cs. loaded s0 \<and> s = fold perform cs s0)"

section \<open>Concrete states\<close>

text \<open>
  The state at load time: both \<^verbatim>\<open>Map\<close>s empty, \<^verbatim>\<open>initialized = false\<close>. For the
  examples a value is the text of its JSON form.
\<close>

definition blank_channel :: "'a Channel" where
  "blank_channel =
     \<lparr>signal = Undefined, ch_storage = Memory, ch_storageKey = [], subscribers = [],
      ch_ttl = None, ch_autoCleanup = False, timeoutId = None, createdAt = 0, config = None,
      isInitialized = False, onChangeDebounceTimer = None, onChangeLastCall = None\<rparr>"

definition text_stringify :: "string jsval \<Rightarrow> string option" where
  "text_stringify v =
     (case v of Undefined \<Rightarrow> Some ''undefined'' | Null \<Rightarrow> Some ''null'' | Val t \<Rightarrow> Some t)"

definition text_parse :: "string \<Rightarrow> string jsval option" where
  "text_parse raw =
     (if raw = ''undefined'' then None else if raw = ''null'' then Some Null else Some (Val raw))"

definition initial_bus :: "string bus" where
  "initial_bus =
     \<lparr>initialized = False, channels = [], objects = (\<lambda>_. blank_channel),
      eventListeners = [], sets = (\<lambda>_. []),
      vars = (\<lambda>_. \<lparr>debounceTimer = None, lastCallTime = 0, hasExecuted = False\<rparr>),
      next_ref = 0,
      sessionStorage = \<lparr>items = Map.empty, unavailable = False\<rparr>,
      localStorage = \<lparr>items = Map.empty, unavailable = False\<rparr>,
      JSON_parse = text_parse, JSON_stringify = text_stringify, runtime = Browser,
      now = 1000, timers = [], next_timer = 1, trace = [], console = []\<rparr>"

definition no_config :: "'a ChannelConfig" where
  "no_config = only_initialValue Undefined"

section \<open>Channels: creation, publish, read, clear\<close>

lemma publish_absent:
  assumes "map_of (channels s) name = None"
  shows "publish name v s =
     s\<lparr>initialized := True,
       objects := (objects s)(next_ref s :=
          \<lparr>signal = v, ch_storage = Memory, ch_storageKey = ''lithium:'' @ name,
           subscribers = [], ch_ttl = None, ch_autoCleanup = False, timeoutId = None,
           createdAt = now s, config = Some (only_initialValue v), isInitialized = present v,
           onChangeDebounceTimer = None, onChangeLastCall = None\<rparr>),
       channels := channels s @ [(name, next_ref s)],
       next_ref := Suc (next_ref s)\<rparr>"
  using assms
  by (simp add: publish_def channel_def register_channel_def new_channel_def init_def Let_def getFromStorage_def only_initialValue_def
        storageKey_of_def storage_of_def initialValue_of_def ttl_of_def autoCleanup_of_def
        onInit_of_def schedule_ttl_def)

text \<open>
  C1. A publish to a name with no channel creates the channel holding exactly the published
  value and does nothing else: no hook and no subscriber is called (the trace is unchanged,
  so not even onInit fires, the created configuration having none), no timer is scheduled,
  neither storage area is written, nothing is logged, and getValue then returns the value.
\<close>

theorem publish_creates_channel:
  assumes "map_of (channels s) name = None"
  shows "getValue name (publish name v s) = v
       \<and> listChannels (publish name v s) = listChannels s @ [name]
       \<and> trace (publish name v s) = trace s
       \<and> timers (publish name v s) = timers s
       \<and> sessionStorage (publish name v s) = sessionStorage s
       \<and> localStorage (publish name v s) = localStorage s
       \<and> console (publish name v s) = console s"
  using assms
  by (simp add: publish_absent getValue_def listChannels_def map_add_def)

theorem publish_creates_channel_witness:
  "map_of (channels initial_bus) ''user'' = None
   \<and> getValue ''user'' (publish ''user'' (Val ''7'') initial_bus) = Val ''7''
   \<and> listChannels (publish ''user'' (Val ''7'') initial_bus) = [''user'']
   \<and> trace (publish ''user'' (Val ''7'') initial_bus) = []"
  using publish_creates_channel [of initial_bus "''user''" "Val ''7''"]
  by (simp add: initial_bus_def listChannels_def)

text \<open>
  C2. When the configured validate rejects the value, publish changes nothing in the broker
  or its environment except for the warning it logs: the value, the initialized flag, the
  storage areas, the timers and the trace of calls are those of the state before.
\<close>

theorem publish_validation_rejected:
  assumes "map_of (channels s) name = Some a"
      and "validate_of (config (objects s a)) = Some ok"
      and "\<not> ok v"
  shows "publish name v s =
           s\<lparr>console := console s @ [LogWarn (''Validation failed for channel \"'' @ name @ ''\"'')]\<rparr>"
  using assms by (simp add: publish_def Let_def console_warn_def)

definition positive_config :: "string ChannelConfig" where
  "positive_config = (only_initialValue (Val ''1''))\<lparr>validate := Some (\<lambda>v. v \<noteq> Val ''-1'')\<rparr>"

theorem publish_validation_rejected_witness:
  "publish ''count'' (Val ''-1'') (channel ''count'' (Some positive_config) initial_bus) =
     (channel ''count'' (Some positive_config) initial_bus)
       \<lparr>console := [LogWarn ''Validation failed for channel \"count\"'']\<rparr>
   \<and> getValue ''count'' (publish ''count'' (Val ''-1'')
         (channel ''count'' (Some positive_config) initial_bus)) = Val ''1''"
  using publish_validation_rejected [of "channel ''count'' (Some positive_config) initial_bus"
          "''count''" 0 "\<lambda>v. v \<noteq> Val ''-1''" "Val ''-1''"]
  by (simp add: channel_def register_channel_def new_channel_def initial_bus_def positive_config_def only_initialValue_def init_def
        Let_def getFromStorage_def storageKey_of_def storage_of_def initialValue_of_def ttl_of_def
        autoCleanup_of_def onInit_of_def schedule_ttl_def validate_of_def getValue_def)

lemma channel_absent_no_config:
  assumes "map_of (channels s) name = None"
  shows "channel name None s =
     s\<lparr>initialized := True,
       objects := (objects s)(next_ref s :=
          \<lparr>signal = Undefined, ch_storage = Memory, ch_storageKey = ''lithium:'' @ name,
           subscribers = [], ch_ttl = None, ch_autoCleanup = False, timeoutId = None,
           createdAt = now s, config = None, isInitialized = False,
           onChangeDebounceTimer = None, onChangeLastCall = None\<rparr>),
       channels := channels s @ [(name, next_ref s)],
       next_ref := Suc (next_ref s)\<rparr>"
  using assms
  by (simp add: channel_def register_channel_def new_channel_def init_def Let_def getFromStorage_def
        storageKey_of_def storage_of_def initialValue_of_def ttl_of_def autoCleanup_of_def
        onInit_of_def schedule_ttl_def)

text \<open>
  C10. getValue returns undefined for a name with no channel, and it returns undefined as
  well once subscribe has created the channel with no initial value: the channel is then
  listed, and the result of getValue is the same as before.
\<close>

theorem getValue_absent_ambiguous:
  assumes "map_of (channels s) name = None"
  shows "getValue name s = Undefined
       \<and> getValue name (subscribe name cb s) = Undefined
       \<and> name \<notin> set (listChannels s)
       \<and> name \<in> set (listChannels (subscribe name cb s))"
proof -
  have "name \<notin> set (listChannels s)"
    using assms by (simp add: listChannels_def map_of_eq_None_iff)
  then show ?thesis
    using assms
    by (simp add: channel_absent_no_config getValue_def subscribe_def listChannels_def
          update_channel_def map_add_def Let_def)
qed

theorem getValue_absent_ambiguous_witness:
  "map_of (channels initial_bus) ''theme'' = None
   \<and> getValue ''theme'' initial_bus = Undefined
   \<and> getValue ''theme'' (subscribe ''theme'' (Subscriber 1 (\<lambda>v. Returns)) initial_bus) = Undefined
   \<and> listChannels initial_bus = []
   \<and> listChannels (subscribe ''theme'' (Subscriber 1 (\<lambda>v. Returns)) initial_bus) = [''theme'']"
  using getValue_absent_ambiguous [of initial_bus "''theme''" "Subscriber 1 (\<lambda>v. Returns)"]
  by (simp add: initial_bus_def listChannels_def subscribe_def channel_absent_no_config
        update_channel_def Let_def)

lemma objects_run_onClear [simp]: "objects (run_onClear n a s) = objects s"
  by simp

lemma clear_absent: "map_of (channels s) name = None \<Longrightarrow> clear name s = s"
  by (simp add: clear_def)

lemma filter_key_absent:
  "map_of xs k = None \<Longrightarrow> filter (\<lambda>(k', r). k' \<noteq> k) xs = xs"
  by (induction xs) (auto split: if_splits)

lemma channels_clear:
  "channels (clear name s) = filter (\<lambda>(k, r). k \<noteq> name) (channels s)"
  by (cases "map_of (channels s) name") (simp_all add: clear_def Let_def filter_key_absent)

lemma trace_clear:
  "map_of (channels s) name = Some a \<Longrightarrow>
   trace (clear name s) =
     trace s @ (case onClear_of (config (objects s a)) of None \<Rightarrow> [] | Some r \<Rightarrow> [OnClearCalled name])"
  by (simp add: clear_def Let_def run_onClear_def called_def split: option.splits)

lemma timers_clear_if_set:
  "timers (clear_if_set h s) = filter (\<lambda>t. Some (tm_id t) \<noteq> h) (timers s)"
  by (cases h) (simp_all add: clear_if_set_def clearTimeout_def)

lemma timers_clear:
  "map_of (channels s) name = Some a \<Longrightarrow>
   timers (clear name s) =
     filter (\<lambda>t. Some (tm_id t) \<noteq> timeoutId (objects s a)
               \<and> Some (tm_id t) \<noteq> onChangeDebounceTimer (objects s a)) (timers s)"
  by (simp add: clear_def Let_def timers_clear_if_set conj_commute)

lemma objects_clear:
  "map_of (channels s) name = Some a \<Longrightarrow>
   objects (clear name s) = (objects s)(a := (objects s a)\<lparr>subscribers := []\<rparr>)"
  by (simp add: clear_def Let_def update_channel_def)

lemma items_removeFromStorage:
  "st \<noteq> Memory \<Longrightarrow> \<not> unavailable (store_of st s) \<Longrightarrow>
   items (store_of st (removeFromStorage key st s)) key = None"
  by (simp add: removeFromStorage_def store_of_def set_store_def)

lemma store_of_frame:
  "sessionStorage s' = sessionStorage s \<Longrightarrow> localStorage s' = localStorage s \<Longrightarrow>
   store_of st s' = store_of st s"
  by (simp add: store_of_def)

lemma storage_clear:
  assumes "map_of (channels s) name = Some a"
      and "ch_storage (objects s a) \<noteq> Memory"
      and "\<not> unavailable (store_of (ch_storage (objects s a)) s)"
  shows "items (store_of (ch_storage (objects s a)) (clear name s)) (ch_storageKey (objects s a)) = None"
proof -
  let ?s3 = "clear_if_set (onChangeDebounceTimer (objects s a))
               (clear_if_set (timeoutId (objects s a)) (run_onClear name a s))"
  have "store_of (ch_storage (objects s a)) ?s3 = store_of (ch_storage (objects s a)) s"
    by (rule store_of_frame) simp_all
  then have "items (store_of (ch_storage (objects s a))
               (removeFromStorage (ch_storageKey (objects s a)) (ch_storage (objects s a)) ?s3))
               (ch_storageKey (objects s a)) = None"
    using assms by (simp add: items_removeFromStorage)
  moreover have "store_of st (s'\<lparr>channels := cs\<rparr>) = store_of st s'"
    for st cs and s' :: "'a bus"
    by (simp add: store_of_def)
  moreover have "store_of st (update_channel a f s') = store_of st s'"
    for st f and s' :: "'a bus"
    by (simp add: store_of_def)
  ultimately show ?thesis
    using assms by (simp add: clear_def Let_def)
qed

lemma console_clear_throws:
  assumes "map_of (channels s) name = Some a"
      and "onClear_of (config (objects s a)) = Some Throws"
  shows "LogError (''Error in onClear for channel \"'' @ name @ ''\":'') \<in> set (console (clear name s))"
proof -
  have 1: "LogError m \<in> set (console s') \<Longrightarrow> LogError m \<in> set (console (removeFromStorage k st s'))"
    for m k st and s' :: "'a bus"
    by (simp add: removeFromStorage_def set_store_def console_error_def)
  have "LogError (''Error in onClear for channel \"'' @ name @ ''\":'')
          \<in> set (console (run_onClear name a s))"
    using assms by (simp add: run_onClear_def Let_def console_error_def)
  then show ?thesis
    using assms(1) by (simp add: clear_def Let_def 1)
qed



definition cart_config :: "string ChannelConfig" where
  "cart_config = (only_initialValue (Val ''a''))
      \<lparr>storage := Some Session, ttl := Some 5000, onClear := Some Throws\<rparr>"

definition cart_bus :: "string bus" where
  "cart_bus = subscribe ''cart'' (Subscriber 1 (\<lambda>v. Returns))
                (publish ''cart'' (Val ''b'') (channel ''cart'' (Some cart_config) initial_bus))"

lemmas eval_defs = channel_def register_channel_def new_channel_def publish_def subscribe_def init_def Let_def getFromStorage_def
  saveToStorage_def storageKey_of_def storage_of_def initialValue_of_def ttl_of_def
  autoCleanup_of_def onInit_of_def onChange_of_def onClear_of_def validate_of_def transform_of_def
  schedule_ttl_def setTimeout_def timer_delay_def TIMEOUT_MAX_def update_channel_def persist_def
  first_value_def changed_def
  store_of_def set_store_def only_initialValue_def initial_bus_def text_stringify_def
  text_parse_def console_log_def

lemma cart_bus_eval:
  "cart_bus =
     \<lparr>initialized = True, channels = [(''cart'', 0)],
      objects = (\<lambda>_. blank_channel)
        (0 := \<lparr>signal = Val ''b'', ch_storage = Session, ch_storageKey = ''lithium:cart'',
                subscribers = [Subscriber 1 (\<lambda>v. Returns)], ch_ttl = Some 5000,
                ch_autoCleanup = False, timeoutId = Some 1, createdAt = 1000,
                config = Some cart_config, isInitialized = True,
                onChangeDebounceTimer = None, onChangeLastCall = None\<rparr>),
      eventListeners = [], sets = (\<lambda>_. []),
      vars = (\<lambda>_. \<lparr>debounceTimer = None, lastCallTime = 0, hasExecuted = False\<rparr>),
      next_ref = 1,
      sessionStorage = \<lparr>items = [''lithium:cart'' \<mapsto> ''b''], unavailable = False\<rparr>,
      localStorage = \<lparr>items = Map.empty, unavailable = False\<rparr>,
      JSON_parse = text_parse, JSON_stringify = text_stringify, runtime = Browser, now = 1000,
      timers = [\<lparr>tm_id = 1, tm_due = 6000, tm_task = ClearChannel ''cart''\<rparr>],
      next_timer = 2, trace = [], console = []\<rparr>"
  by (simp add: cart_bus_def cart_config_def eval_defs)


section \<open>Publishing to an existing channel\<close>

definition accepted :: "'a ChannelConfig option \<Rightarrow> 'a jsval \<Rightarrow> bool" where
  "accepted cfg v = (case validate_of cfg of None \<Rightarrow> True | Some ok \<Rightarrow> ok v)"

definition transformed_value :: "'a ChannelConfig option \<Rightarrow> 'a jsval \<Rightarrow> 'a jsval" where
  "transformed_value cfg v = (case transform_of cfg of None \<Rightarrow> v | Some f \<Rightarrow> f v)"

fun is_onChange :: "string \<Rightarrow> 'a event \<Rightarrow> bool" where
  "is_onChange n (OnChangeCalled m v v') = (m = n)"
| "is_onChange n e = False"

fun is_onInit :: "string \<Rightarrow> 'a event \<Rightarrow> bool" where
  "is_onInit n (OnInitCalled m v) = (m = n)"
| "is_onInit n e = False"

text \<open>
  Publishes one after the other, each after the given number of milliseconds has passed
  since the one before.
\<close>

fun publishes :: "string \<Rightarrow> (nat \<times> 'a jsval) list \<Rightarrow> 'a bus \<Rightarrow> 'a bus" where
  "publishes channelName [] s = s"
| "publishes channelName ((gap, v) # rest) s =
     publishes channelName rest (publish channelName v (advance (now s + gap) s))"

lemma objects_update_channel [simp]:
  "objects (update_channel a f s) = (objects s)(a := f (objects s a))"
  by (simp add: update_channel_def)

lemma objects_first_value:
  "objects (first_value n a cfg v s) =
     (objects s)(a := (objects s a)\<lparr>isInitialized := isInitialized (objects s a) \<or> present v\<rparr>)"
  by (auto simp: first_value_def Let_def update_channel_def split: option.splits)

lemma objects_persist [simp]: "objects (persist a v s) = objects s"
  by simp

lemma filter_trace_notify [simp]:
  "filter (is_onChange n) (trace (notify m cbs v s)) = filter (is_onChange n) (trace s)"
  "filter (is_onInit n) (trace (notify m cbs v s)) = filter (is_onInit n) (trace s)"
  by (induction cbs arbitrary: s; simp add: Let_def called_def)+

lemma trace_first_value:
  "trace (first_value n a cfg v s) =
     trace s @ (if \<not> isInitialized (objects s a) \<and> present v \<and> onInit_of cfg \<noteq> None
                then [OnInitCalled n v] else [])"
  by (auto simp: first_value_def Let_def run_onInit_def called_def split: option.splits)

lemma trace_run_onChange [simp]:
  "trace (run_onChange n h v v' s) = trace s @ [OnChangeCalled n v v']"
  by (simp add: run_onChange_def Let_def called_def)

lemma trace_run_onInit [simp]:
  "trace (run_onInit n h v s) = trace s @ [OnInitCalled n v]"
  by (simp add: run_onInit_def Let_def called_def)

lemma filter_trace_first_value [simp]:
  "filter (is_onChange n) (trace (first_value m a cfg v s)) = filter (is_onChange n) (trace s)"
  by (simp add: trace_first_value)

lemma publish_accepted:
  assumes "map_of (channels s) name = Some a" and "accepted (config (objects s a)) v"
  shows "publish name v s =
    (let cfg = config (objects s a);
         tv = transformed_value cfg v;
         s3 = first_value name a cfg tv (persist a tv (update_channel a (\<lambda>c. c\<lparr>signal := tv\<rparr>) s));
         s4 = changed name a cfg tv (signal (objects s a)) s3
     in notify name (subscribers (objects s4 a)) tv s4)"
  using assms
  by (auto simp: publish_def Let_def accepted_def transformed_value_def split: option.splits)

lemma advance_quiet:
  assumes "\<forall>tm \<in> set (timers s). T < tm_due tm"
  shows "advance T s = s\<lparr>now := max (now s) T\<rparr>"
proof -
  have "filter (\<lambda>t. tm_due t \<le> T) (timers s) = []"
    using assms by (auto simp: filter_empty_conv)
  then have "next_due T s = None" by (simp add: next_due_def)
  then show ?thesis by (subst advance.simps) simp
qed


section \<open>Throttled onChange\<close>

definition throttle_open :: "nat \<Rightarrow> nat \<Rightarrow> 'a bus \<Rightarrow> bool" where
  "throttle_open a t s \<longleftrightarrow> int t \<le> int (now s) - int (ms (onChangeLastCall (objects s a)))"

lemma changed_throttle:
  assumes "config (objects s a) = Some c" and "onChange c = Some h"
      and "ms (debounce c) = 0" and "ms (throttle c) = t" and "0 < t"
  shows "changed name a (Some c) nv ov s =
           (if throttle_open a t s
            then run_onChange name h nv ov
                   (update_channel a (\<lambda>c. c\<lparr>onChangeLastCall := Some (now s)\<rparr>) s)
            else s)"
  using assms
  by (simp add: changed_def onChange_of_def executeOnChange_def Let_def throttle_open_def)

lemma publish_throttle:
  assumes ex: "map_of (channels s) name = Some a"
      and cfg: "config (objects s a) = Some c" "onChange c = Some h"
               "ms (debounce c) = 0" "ms (throttle c) = t" "0 < t"
      and acc: "accepted (Some c) v"
  shows "channels (publish name v s) = channels s"
    and "config (objects (publish name v s) a) = Some c"
    and "now (publish name v s) = now s"
    and "timers (publish name v s) = timers s"
    and "onChangeLastCall (objects (publish name v s) a) =
           (if throttle_open a t s then Some (now s) else onChangeLastCall (objects s a))"
    and "filter (is_onChange name) (trace (publish name v s)) =
           filter (is_onChange name) (trace s) @
           (if throttle_open a t s
            then [OnChangeCalled name (transformed_value (Some c) v) (signal (objects s a))]
            else [])"
proof -
  let ?tv = "transformed_value (Some c) v"
  let ?s3 = "first_value name a (Some c) ?tv
               (persist a ?tv (update_channel a (\<lambda>c. c\<lparr>signal := ?tv\<rparr>) s))"
  let ?s4 = "changed name a (Some c) ?tv (signal (objects s a)) ?s3"
  have p: "publish name v s = notify name (subscribers (objects ?s4 a)) ?tv ?s4"
    using publish_accepted [OF ex] acc cfg(1) by (simp add: Let_def)
  have c3: "config (objects ?s3 a) = Some c"
    using cfg(1) by (simp add: objects_first_value)
  have o3: "throttle_open a t ?s3 = throttle_open a t s"
    by (simp add: throttle_open_def objects_first_value)
  have s4: "?s4 = (if throttle_open a t s
            then run_onChange name h ?tv (signal (objects s a))
                   (update_channel a (\<lambda>c. c\<lparr>onChangeLastCall := Some (now s)\<rparr>) ?s3)
            else ?s3)"
    using changed_throttle [OF c3 cfg(2-5)] o3 by simp
  show "channels (publish name v s) = channels s" by (simp add: p s4)
  show "config (objects (publish name v s) a) = Some c"
    using cfg(1) by (simp add: p s4 objects_first_value)
  show "now (publish name v s) = now s" by (simp add: p s4)
  show "timers (publish name v s) = timers s" by (simp add: p s4)
  show "onChangeLastCall (objects (publish name v s) a) =
           (if throttle_open a t s then Some (now s) else onChangeLastCall (objects s a))"
    by (simp add: p s4 objects_first_value)
  show "filter (is_onChange name) (trace (publish name v s)) =
           filter (is_onChange name) (trace s) @
           (if throttle_open a t s
            then [OnChangeCalled name ?tv (signal (objects s a))]
            else [])"
    apply (simp only: p)
    apply (simp only: filter_trace_notify)
    apply (subst s4)
    apply simp
    done
qed


lemma throttle_closed_burst:
  assumes ex: "map_of (channels s) name = Some a"
      and cfg: "config (objects s a) = Some c" "onChange c = Some h"
               "ms (debounce c) = 0" "ms (throttle c) = t" "0 < t"
      and acc: "\<forall>v \<in> set (map snd rest). accepted (Some c) v"
      and last: "onChangeLastCall (objects s a) = Some t0"
      and window: "now s + sum_list (map fst rest) < t0 + t"
      and quiet: "\<forall>tm \<in> set (timers s). now s + sum_list (map fst rest) < tm_due tm"
  shows "filter (is_onChange name) (trace (publishes name rest s)) = filter (is_onChange name) (trace s)
       \<and> timers (publishes name rest s) = timers s"
  using ex cfg(1) acc last window quiet
proof (induction rest arbitrary: s)
  case Nil
  then show ?case by simp
next
  case (Cons gv rest)
  obtain g v where gv: "gv = (g, v)" by (cases gv)
  let ?s' = "s\<lparr>now := now s + g\<rparr>"
  have "\<forall>tm \<in> set (timers s). now s + g < tm_due tm"
    using Cons.prems(6) by (force simp: gv)
  then have adv: "advance (now s + g) s = ?s'"
    using advance_quiet [of s "now s + g"] by (simp add: max_def)
  have ex': "map_of (channels ?s') name = Some a" using Cons.prems(1) by simp
  have cfg': "config (objects ?s' a) = Some c" using Cons.prems(2) by simp
  have acc': "accepted (Some c) v" using Cons.prems(3) by (simp add: gv)
  have closed: "\<not> throttle_open a t ?s'"
    using Cons.prems(4,5) by (simp add: throttle_open_def gv)
  note p = publish_throttle [OF ex' cfg' cfg(2-5) acc']
  let ?s'' = "publish name v ?s'"
  have "filter (is_onChange name) (trace (publishes name rest ?s'')) = filter (is_onChange name) (trace ?s'')
       \<and> timers (publishes name rest ?s'') = timers ?s''"
  proof (rule Cons.IH)
    show "map_of (channels ?s'') name = Some a" using ex' by (simp add: p(1))
    show "config (objects ?s'' a) = Some c" by (rule p(2))
    show "\<forall>v \<in> set (map snd rest). accepted (Some c) v" using Cons.prems(3) by simp
    show "onChangeLastCall (objects ?s'' a) = Some t0"
      using closed Cons.prems(4) by (simp add: p(5))
    show "now ?s'' + sum_list (map fst rest) < t0 + t"
      using Cons.prems(5) by (simp add: p(3) gv add.assoc)
    show "\<forall>tm \<in> set (timers ?s''). now ?s'' + sum_list (map fst rest) < tm_due tm"
      using Cons.prems(6) by (simp add: p(3,4) gv add.assoc)
  qed
  then show ?case
    using closed by (simp add: gv adv p(4,6))
qed


definition meter_config :: "string ChannelConfig" where
  "meter_config = (only_initialValue (Val ''0''))
      \<lparr>onChange := Some (\<lambda>v v'. Returns), throttle := Some 1000\<rparr>"

definition meter_bus :: "string bus" where
  "meter_bus = channel ''meter'' (Some meter_config) initial_bus"

lemma meter_bus_eval:
  "meter_bus =
     \<lparr>initialized = True, channels = [(''meter'', 0)],
      objects = (\<lambda>_. blank_channel)
        (0 := \<lparr>signal = Val ''0'', ch_storage = Memory, ch_storageKey = ''lithium:meter'',
                subscribers = [], ch_ttl = None, ch_autoCleanup = False, timeoutId = None,
                createdAt = 1000, config = Some meter_config, isInitialized = True,
                onChangeDebounceTimer = None, onChangeLastCall = None\<rparr>),
      eventListeners = [], sets = (\<lambda>_. []),
      vars = (\<lambda>_. \<lparr>debounceTimer = None, lastCallTime = 0, hasExecuted = False\<rparr>),
      next_ref = 1,
      sessionStorage = \<lparr>items = Map.empty, unavailable = False\<rparr>,
      localStorage = \<lparr>items = Map.empty, unavailable = False\<rparr>,
      JSON_parse = text_parse, JSON_stringify = text_stringify, runtime = Browser, now = 1000,
      timers = [], next_timer = 1, trace = [], console = []\<rparr>"
  by (simp add: meter_bus_def meter_config_def eval_defs)


section \<open>Debounced onChange\<close>

lemma fst_setTimeout [simp]: "fst (setTimeout task d s) = next_timer s"
  by (simp add: setTimeout_def)

lemma timers_setTimeout [simp]:
  "timers (snd (setTimeout task d s)) =
     timers s @ [\<lparr>tm_id = next_timer s, tm_due = now s + timer_delay (runtime s) d,
                  tm_task = task\<rparr>]"
  by (simp add: setTimeout_def)

text \<open>Every host takes a delay between 1 and \<open>TIMEOUT_MAX\<close> as it is.\<close>

lemma timer_delay_small: "0 < d \<Longrightarrow> d \<le> TIMEOUT_MAX \<Longrightarrow> timer_delay r d = d"
  by (cases r) (simp_all add: timer_delay_def TIMEOUT_MAX_def)

lemma next_timer_setTimeout [simp]:
  "next_timer (snd (setTimeout task d s)) = Suc (next_timer s)"
  by (simp add: setTimeout_def)

lemma changed_debounce:
  assumes "config (objects s a) = Some c" and "onChange c = Some h"
      and "ms (debounce c) = d" and "0 < d"
  shows "changed name a (Some c) nv ov s =
           update_channel a (\<lambda>c. c\<lparr>onChangeDebounceTimer := Some (next_timer s)\<rparr>)
             (snd (setTimeout (OnChangeCallback name h nv ov) d
                    (clear_if_set (onChangeDebounceTimer (objects s a)) s)))"
  using assms
  by (simp add: changed_def onChange_of_def executeOnChange_def Let_def split_beta)

lemma publish_debounce:
  assumes ex: "map_of (channels s) name = Some a"
      and cfg: "config (objects s a) = Some c" "onChange c = Some h"
               "ms (debounce c) = d" "0 < d" "d \<le> TIMEOUT_MAX"
      and acc: "accepted (Some c) v"
  shows "channels (publish name v s) = channels s"
    and "config (objects (publish name v s) a) = Some c"
    and "now (publish name v s) = now s"
    and "timers (publish name v s) =
           filter (\<lambda>tm. Some (tm_id tm) \<noteq> onChangeDebounceTimer (objects s a)) (timers s) @
           [\<lparr>tm_id = next_timer s, tm_due = now s + d,
             tm_task = OnChangeCallback name h (transformed_value (Some c) v) (signal (objects s a))\<rparr>]"
    and "onChangeDebounceTimer (objects (publish name v s) a) = Some (next_timer s)"
    and "filter (is_onChange name) (trace (publish name v s)) = filter (is_onChange name) (trace s)"
    and "signal (objects (publish name v s) a) = transformed_value (Some c) v"
proof -
  let ?tv = "transformed_value (Some c) v"
  let ?s3 = "first_value name a (Some c) ?tv
               (persist a ?tv (update_channel a (\<lambda>c. c\<lparr>signal := ?tv\<rparr>) s))"
  let ?s4 = "changed name a (Some c) ?tv (signal (objects s a)) ?s3"
  have p: "publish name v s = notify name (subscribers (objects ?s4 a)) ?tv ?s4"
    using publish_accepted [OF ex] acc cfg(1) by (simp add: Let_def)
  have c3: "config (objects ?s3 a) = Some c"
    using cfg(1) by (simp add: objects_first_value)
  have s4: "?s4 = update_channel a (\<lambda>c. c\<lparr>onChangeDebounceTimer := Some (next_timer s)\<rparr>)
             (snd (setTimeout (OnChangeCallback name h ?tv (signal (objects s a))) d
                    (clear_if_set (onChangeDebounceTimer (objects s a)) ?s3)))"
    using changed_debounce [OF c3 cfg(2-4)] by (simp add: objects_first_value)
  show "channels (publish name v s) = channels s" by (simp add: p s4)
  show "config (objects (publish name v s) a) = Some c"
    using cfg(1) by (simp add: p s4 objects_first_value)
  show "now (publish name v s) = now s" by (simp add: p s4)
  show "timers (publish name v s) =
           filter (\<lambda>tm. Some (tm_id tm) \<noteq> onChangeDebounceTimer (objects s a)) (timers s) @
           [\<lparr>tm_id = next_timer s, tm_due = now s + d,
             tm_task = OnChangeCallback name h ?tv (signal (objects s a))\<rparr>]"
    by (simp add: p s4 timers_clear_if_set timer_delay_small [OF cfg(4,5)])
  show "onChangeDebounceTimer (objects (publish name v s) a) = Some (next_timer s)"
    by (simp add: p s4)
  show "filter (is_onChange name) (trace (publish name v s)) = filter (is_onChange name) (trace s)"
    by (simp add: p s4)
  show "signal (objects (publish name v s) a) = ?tv"
    by (simp add: p s4 objects_first_value)
qed

text \<open>
  The onChange call with arguments \<open>v\<close>, \<open>old\<close> is pending for the channel object \<open>a\<close>,
  due at \<open>due\<close>, and every other pending timer is due after \<open>T\<close>.
\<close>

definition pending_onChange ::
  "nat \<Rightarrow> string \<Rightarrow> ('a jsval \<Rightarrow> 'a jsval \<Rightarrow> outcome) \<Rightarrow> 'a jsval \<Rightarrow> 'a jsval \<Rightarrow> nat \<Rightarrow> nat
     \<Rightarrow> 'a bus \<Rightarrow> bool" where
  "pending_onChange a name h v old due T s \<longleftrightarrow>
     (\<exists>k. onChangeDebounceTimer (objects s a) = Some k
        \<and> \<lparr>tm_id = k, tm_due = due, tm_task = OnChangeCallback name h v old\<rparr> \<in> set (timers s)
        \<and> (\<forall>tm \<in> set (timers s).
              T < tm_due tm \<or> tm = \<lparr>tm_id = k, tm_due = due, tm_task = OnChangeCallback name h v old\<rparr>))"

lemma pending_after_publish:
  assumes ex: "map_of (channels s) name = Some a"
      and cfg: "config (objects s a) = Some c" "onChange c = Some h"
               "ms (debounce c) = d" "0 < d" "d \<le> TIMEOUT_MAX"
      and acc: "accepted (Some c) v"
      and quiet: "\<forall>tm \<in> set (timers s).
                    Some (tm_id tm) = onChangeDebounceTimer (objects s a) \<or> T < tm_due tm"
  shows "pending_onChange a name h (transformed_value (Some c) v) (signal (objects s a))
           (now s + d) T (publish name v s)"
  using quiet
  by (auto simp: pending_onChange_def publish_debounce [OF ex cfg acc])


text \<open>
  The arguments of the pending call after further publishes: the new value is the last
  transformed value, the old value is the value that was held before it.
\<close>

fun burst_args ::
  "'a ChannelConfig option \<Rightarrow> 'a jsval \<times> 'a jsval \<Rightarrow> 'a jsval list \<Rightarrow> 'a jsval \<times> 'a jsval" where
  "burst_args cfg p [] = p"
| "burst_args cfg p (x # xs) = burst_args cfg (transformed_value cfg x, fst p) xs"

lemma burst_args_closed:
  "burst_args cfg (transformed_value cfg v1, old0) xs =
     (transformed_value cfg (last (v1 # xs)),
      last (old0 # map (transformed_value cfg) (butlast (v1 # xs))))"
  by (induction xs arbitrary: v1 old0) simp_all

lemma debounce_burst_pending:
  assumes ex: "map_of (channels s) name = Some a"
      and cfg: "config (objects s a) = Some c" "onChange c = Some h"
               "ms (debounce c) = d" "0 < d" "d \<le> TIMEOUT_MAX"
      and acc: "\<forall>x \<in> set (map snd rest). accepted (Some c) x"
      and gaps: "\<forall>g \<in> set (map fst rest). g < d"
      and bound: "now s + sum_list (map fst rest) + d \<le> T"
      and pend: "pending_onChange a name h v old (now s + d) T s"
      and sig: "signal (objects s a) = v"
  shows "pending_onChange a name h
           (fst (burst_args (Some c) (v, old) (map snd rest)))
           (snd (burst_args (Some c) (v, old) (map snd rest)))
           (now s + sum_list (map fst rest) + d) T (publishes name rest s)
       \<and> now (publishes name rest s) = now s + sum_list (map fst rest)
       \<and> filter (is_onChange name) (trace (publishes name rest s)) = filter (is_onChange name) (trace s)"
  using ex cfg(1) acc gaps bound pend sig
proof (induction rest arbitrary: s v old)
  case Nil
  then show ?case by simp
next
  case (Cons gx rest)
  obtain g x where gx: "gx = (g, x)" by (cases gx)
  let ?s' = "s\<lparr>now := now s + g\<rparr>"
  from Cons.prems(6) obtain k where k:
    "onChangeDebounceTimer (objects s a) = Some k"
    "\<forall>tm \<in> set (timers s). T < tm_due tm
        \<or> tm = \<lparr>tm_id = k, tm_due = now s + d, tm_task = OnChangeCallback name h v old\<rparr>"
    by (auto simp: pending_onChange_def)
  have g: "g < d" using Cons.prems(4) by (simp add: gx)
  have le: "now s + g \<le> T" using Cons.prems(5) by (simp add: gx)
  have "\<forall>tm \<in> set (timers s). now s + g < tm_due tm"
  proof
    fix tm assume "tm \<in> set (timers s)"
    with k(2) have "T < tm_due tm \<or> tm_due tm = now s + d" by auto
    then show "now s + g < tm_due tm" using g le by auto
  qed
  then have adv: "advance (now s + g) s = ?s'"
    using advance_quiet [of s "now s + g"] by (simp add: max_def)
  have ex': "map_of (channels ?s') name = Some a" using Cons.prems(1) by simp
  have cfg': "config (objects ?s' a) = Some c" using Cons.prems(2) by simp
  have acc': "accepted (Some c) x" using Cons.prems(3) by (simp add: gx)
  have quiet': "\<forall>tm \<in> set (timers ?s').
                  Some (tm_id tm) = onChangeDebounceTimer (objects ?s' a) \<or> T < tm_due tm"
    using k by auto
  note p = publish_debounce [OF ex' cfg' cfg(2-5) acc']
  let ?s'' = "publish name x ?s'"
  have pend'': "pending_onChange a name h (transformed_value (Some c) x) v (now ?s'' + d) T ?s''"
    using pending_after_publish [OF ex' cfg' cfg(2-5) acc' quiet'] Cons.prems(7)
    by (simp add: p(3))
  have "pending_onChange a name h
           (fst (burst_args (Some c) (transformed_value (Some c) x, v) (map snd rest)))
           (snd (burst_args (Some c) (transformed_value (Some c) x, v) (map snd rest)))
           (now ?s'' + sum_list (map fst rest) + d) T (publishes name rest ?s'')
       \<and> now (publishes name rest ?s'') = now ?s'' + sum_list (map fst rest)
       \<and> filter (is_onChange name) (trace (publishes name rest ?s'')) = filter (is_onChange name) (trace ?s'')"
  proof (rule Cons.IH)
    show "map_of (channels ?s'') name = Some a" using ex' by (simp add: p(1))
    show "config (objects ?s'' a) = Some c" by (rule p(2))
    show "\<forall>x \<in> set (map snd rest). accepted (Some c) x" using Cons.prems(3) by simp
    show "\<forall>g \<in> set (map fst rest). g < d" using Cons.prems(4) by simp
    show "now ?s'' + sum_list (map fst rest) + d \<le> T"
      using Cons.prems(5) by (simp add: p(3) gx add.assoc)
    show "pending_onChange a name h (transformed_value (Some c) x) v (now ?s'' + d) T ?s''"
      by (rule pend'')
    show "signal (objects ?s'' a) = transformed_value (Some c) x" by (rule p(7))
  qed
  then show ?case
    by (simp add: gx adv p(3,6) add.assoc)
qed

lemma earliest_all_equal:
  "ys \<noteq> [] \<Longrightarrow> \<forall>y \<in> set ys. y = x \<Longrightarrow> earliest ys = Some x"
  by (induction ys) (auto split: option.splits dest: earliest_mem)

lemma advance_fires_pending:
  assumes pend: "pending_onChange a name h v old due T s"
      and due: "due \<le> T'" and T': "T' \<le> T"
  shows "trace (advance T' s) = trace s @ [OnChangeCalled name v old]"
proof -
  let ?x = "\<lambda>k. \<lparr>tm_id = k, tm_due = due, tm_task = OnChangeCallback name h v old\<rparr>"
  from pend obtain k where k:
    "?x k \<in> set (timers s)"
    "\<forall>tm \<in> set (timers s). T < tm_due tm \<or> tm = ?x k"
    by (auto simp: pending_onChange_def)
  let ?due = "filter (\<lambda>t. tm_due t \<le> T') (timers s)"
  have ne: "?due \<noteq> []" using k(1) due by (force simp: filter_empty_conv)
  have "\<forall>y \<in> set ?due. y = ?x k" using k(2) T' by auto
  with ne have "earliest ?due = Some (?x k)" by (rule earliest_all_equal)
  then have nd: "next_due T' s = Some (?x k)" by (simp add: next_due_def)
  let ?s1 = "fire (?x k) s"
  have t1: "timers ?s1 = filter (\<lambda>u. tm_id u \<noteq> k) (timers s)"
    by (simp add: fire_def run_task_def)
  have "\<forall>tm \<in> set (timers ?s1). T' < tm_due tm"
    using k(2) T' by (auto simp: t1)
  then have "advance T' ?s1 = ?s1\<lparr>now := max (now ?s1) T'\<rparr>" by (rule advance_quiet)
  moreover have "advance T' s = advance T' ?s1"
    by (subst advance.simps) (simp add: nd)
  moreover have "trace ?s1 = trace s @ [OnChangeCalled name v old]"
    by (simp add: fire_def run_task_def)
  ultimately show ?thesis by simp
qed

lemma advance_before_pending:
  assumes pend: "pending_onChange a name h v old due T s"
      and T': "T' < due" "T' \<le> T"
  shows "advance T' s = s\<lparr>now := max (now s) T'\<rparr>"
proof (rule advance_quiet)
  from pend obtain k where
    "\<forall>tm \<in> set (timers s). T < tm_due tm
        \<or> tm = \<lparr>tm_id = k, tm_due = due, tm_task = OnChangeCallback name h v old\<rparr>"
    by (auto simp: pending_onChange_def)
  then show "\<forall>tm \<in> set (timers s). T' < tm_due tm" using T' by auto
qed



definition search_config :: "string ChannelConfig" where
  "search_config = (only_initialValue (Val ''q''))
      \<lparr>onChange := Some (\<lambda>v v'. Returns), debounce := Some 300, throttle := Some 1000\<rparr>"

definition search_bus :: "string bus" where
  "search_bus = channel ''search'' (Some search_config) initial_bus"

lemma search_bus_eval:
  "search_bus =
     \<lparr>initialized = True, channels = [(''search'', 0)],
      objects = (\<lambda>_. blank_channel)
        (0 := \<lparr>signal = Val ''q'', ch_storage = Memory, ch_storageKey = ''lithium:search'',
                subscribers = [], ch_ttl = None, ch_autoCleanup = False, timeoutId = None,
                createdAt = 1000, config = Some search_config, isInitialized = True,
                onChangeDebounceTimer = None, onChangeLastCall = None\<rparr>),
      eventListeners = [], sets = (\<lambda>_. []),
      vars = (\<lambda>_. \<lparr>debounceTimer = None, lastCallTime = 0, hasExecuted = False\<rparr>),
      next_ref = 1,
      sessionStorage = \<lparr>items = Map.empty, unavailable = False\<rparr>,
      localStorage = \<lparr>items = Map.empty, unavailable = False\<rparr>,
      JSON_parse = text_parse, JSON_stringify = text_stringify, runtime = Browser, now = 1000,
      timers = [], next_timer = 1, trace = [], console = []\<rparr>"
  by (simp add: search_bus_def search_config_def eval_defs)

definition search_burst :: "string bus" where
  "search_burst = publishes ''search'' [(100, Val ''ab''), (250, Val ''abc'')]
                    (publish ''search'' (Val ''a'') search_bus)"


text \<open>A channel whose debounce interval is \<open>2^31\<close> ms, on either host.\<close>

definition slow_config :: "string ChannelConfig" where
  "slow_config = (only_initialValue (Val ''q''))
      \<lparr>onChange := Some (\<lambda>v v'. Returns), debounce := Some 2147483648\<rparr>"

definition slow_bus :: "runtime \<Rightarrow> string bus" where
  "slow_bus r = channel ''slow'' (Some slow_config) (initial_bus\<lparr>runtime := r\<rparr>)"

lemma slow_bus_eval:
  "slow_bus r =
     \<lparr>initialized = True, channels = [(''slow'', 0)],
      objects = (\<lambda>_. blank_channel)
        (0 := \<lparr>signal = Val ''q'', ch_storage = Memory, ch_storageKey = ''lithium:slow'',
                subscribers = [], ch_ttl = None, ch_autoCleanup = False, timeoutId = None,
                createdAt = 1000, config = Some slow_config, isInitialized = True,
                onChangeDebounceTimer = None, onChangeLastCall = None\<rparr>),
      eventListeners = [], sets = (\<lambda>_. []),
      vars = (\<lambda>_. \<lparr>debounceTimer = None, lastCallTime = 0, hasExecuted = False\<rparr>),
      next_ref = 1,
      sessionStorage = \<lparr>items = Map.empty, unavailable = False\<rparr>,
      localStorage = \<lparr>items = Map.empty, unavailable = False\<rparr>,
      JSON_parse = text_parse, JSON_stringify = text_stringify, runtime = r, now = 1000,
      timers = [], next_timer = 1, trace = [], console = []\<rparr>"
  by (simp add: slow_bus_def slow_config_def eval_defs)

lemma slow_publish:
  "timers (publish ''slow'' (Val ''a'') (slow_bus r)) =
     [\<lparr>tm_id = 1, tm_due = 1000 + timer_delay r 2147483648,
       tm_task = OnChangeCallback ''slow'' (\<lambda>v v'. Returns) (Val ''a'') (Val ''q'')\<rparr>]"
  "trace (publish ''slow'' (Val ''a'') (slow_bus r)) = []"
  "now (publish ''slow'' (Val ''a'') (slow_bus r)) = 1000"
  by (simp_all add: slow_bus_eval slow_config_def publish_def Let_def validate_of_def
        transform_of_def persist_def first_value_def changed_def onChange_of_def
        executeOnChange_def update_channel_def only_initialValue_def clear_if_set_def
        setTimeout_def console_log_def onInit_of_def split_beta)


section \<open>The onInit hook\<close>

fun is_onChange_task :: "'a task \<Rightarrow> bool" where
  "is_onChange_task (OnChangeCallback n h v v') = True"
| "is_onChange_task t = False"

text \<open>The values a channel comes to hold when the given values are published in turn.\<close>

definition held :: "'a ChannelConfig option \<Rightarrow> 'a jsval list \<Rightarrow> 'a jsval list" where
  "held cfg vs = map (transformed_value cfg) (filter (accepted cfg) vs)"

lemma changed_frame:
  "channels (changed n a cfg nv ov s) = channels s"
  "now (changed n a cfg nv ov s) = now s"
  "isInitialized (objects (changed n a cfg nv ov s) b) = isInitialized (objects s b)"
  "config (objects (changed n a cfg nv ov s) b) = config (objects s b)"
  "signal (objects (changed n a cfg nv ov s) b) = signal (objects s b)"
  "subscribers (objects (changed n a cfg nv ov s) b) = subscribers (objects s b)"
  "filter (is_onInit m) (trace (changed n a cfg nv ov s)) = filter (is_onInit m) (trace s)"
  by (simp_all add: changed_def executeOnChange_def Let_def split_beta split: option.splits)

lemma timers_changed:
  "tm \<in> set (timers (changed n a cfg nv ov s)) \<Longrightarrow>
   tm \<in> set (timers s) \<or> is_onChange_task (tm_task tm)"
  by (auto simp: changed_def executeOnChange_def Let_def split_beta timers_clear_if_set
           split: option.splits if_splits)

lemma publish_rejected:
  assumes "map_of (channels s) name = Some a" and "\<not> accepted (config (objects s a)) v"
  shows "publish name v s =
           console_warn (''Validation failed for channel \"'' @ name @ ''\"'') s"
  using assms by (auto simp: publish_def Let_def accepted_def split: option.splits)

lemma publish_existing:
  assumes ex: "map_of (channels s) name = Some a"
  shows "channels (publish name v s) = channels s"
    and "now (publish name v s) = now s"
    and "config (objects (publish name v s) a) = config (objects s a)"
    and "isInitialized (objects (publish name v s) a) =
           (isInitialized (objects s a)
            \<or> accepted (config (objects s a)) v
              \<and> present (transformed_value (config (objects s a)) v))"
    and "signal (objects (publish name v s) a) =
           (if accepted (config (objects s a)) v
            then transformed_value (config (objects s a)) v else signal (objects s a))"
    and "filter (is_onInit name) (trace (publish name v s)) =
           filter (is_onInit name) (trace s) @
           (if accepted (config (objects s a)) v \<and> \<not> isInitialized (objects s a)
               \<and> present (transformed_value (config (objects s a)) v)
               \<and> onInit_of (config (objects s a)) \<noteq> None
            then [OnInitCalled name (transformed_value (config (objects s a)) v)] else [])"
    and "\<forall>tm \<in> set (timers (publish name v s)).
           tm \<in> set (timers s) \<or> is_onChange_task (tm_task tm)"
proof -
  let ?cfg = "config (objects s a)"
  let ?tv = "transformed_value ?cfg v"
  let ?s3 = "first_value name a ?cfg ?tv
               (persist a ?tv (update_channel a (\<lambda>c. c\<lparr>signal := ?tv\<rparr>) s))"
  let ?s4 = "changed name a ?cfg ?tv (signal (objects s a)) ?s3"
  have p: "accepted ?cfg v \<Longrightarrow> publish name v s = notify name (subscribers (objects ?s4 a)) ?tv ?s4"
    using publish_accepted [OF ex] by (simp add: Let_def)
  note r = publish_rejected [OF ex]
  show "channels (publish name v s) = channels s"
    by (cases "accepted ?cfg v") (simp_all add: p r changed_frame)
  show "now (publish name v s) = now s"
    by (cases "accepted ?cfg v") (simp_all add: p r changed_frame)
  show "config (objects (publish name v s) a) = ?cfg"
    by (cases "accepted ?cfg v") (simp_all add: p r changed_frame objects_first_value)
  show "isInitialized (objects (publish name v s) a) =
           (isInitialized (objects s a) \<or> accepted ?cfg v \<and> present ?tv)"
    by (cases "accepted ?cfg v") (simp_all add: p r changed_frame objects_first_value)
  show "signal (objects (publish name v s) a) =
           (if accepted ?cfg v then ?tv else signal (objects s a))"
    by (cases "accepted ?cfg v") (simp_all add: p r changed_frame objects_first_value)
  show "filter (is_onInit name) (trace (publish name v s)) =
           filter (is_onInit name) (trace s) @
           (if accepted ?cfg v \<and> \<not> isInitialized (objects s a) \<and> present ?tv
               \<and> onInit_of ?cfg \<noteq> None
            then [OnInitCalled name ?tv] else [])"
    by (cases "accepted ?cfg v") (simp_all add: p r changed_frame trace_first_value)
  show "\<forall>tm \<in> set (timers (publish name v s)).
           tm \<in> set (timers s) \<or> is_onChange_task (tm_task tm)"
  proof (cases "accepted ?cfg v")
    case True
    show ?thesis
    proof
      fix tm assume "tm \<in> set (timers (publish name v s))"
      then have "tm \<in> set (timers ?s4)" by (simp add: p True)
      then have "tm \<in> set (timers ?s3) \<or> is_onChange_task (tm_task tm)"
        by (rule timers_changed)
      then show "tm \<in> set (timers s) \<or> is_onChange_task (tm_task tm)" by simp
    qed
  next
    case False
    then show ?thesis by (simp add: r)
  qed
qed

lemma advance_harmless:
  assumes "\<forall>tm \<in> set (timers s). T < tm_due tm \<or> is_onChange_task (tm_task tm)"
  shows "channels (advance T s) = channels s \<and> objects (advance T s) = objects s
       \<and> filter (is_onInit n) (trace (advance T s)) = filter (is_onInit n) (trace s)
       \<and> set (timers (advance T s)) \<subseteq> set (timers s)
       \<and> now (advance T s) = max (now s) T"
  using assms
proof (induction T s rule: advance.induct)
  case (1 T s)
  show ?case
  proof (cases "next_due T s")
    case None
    then have "advance T s = s\<lparr>now := max (now s) T\<rparr>"
      by (subst advance.simps) simp
    then show ?thesis by simp
  next
    case (Some tm)
    then have tm: "tm \<in> set (timers s)" "tm_due tm \<le> T" using next_due_mem by blast+
    with "1.prems" have "is_onChange_task (tm_task tm)" by auto
    then obtain m h v v' where task: "tm_task tm = OnChangeCallback m h v v'"
      by (cases "tm_task tm") simp_all
    let ?s1 = "fire tm s"
    have f: "channels ?s1 = channels s" "objects ?s1 = objects s"
            "filter (is_onInit n) (trace ?s1) = filter (is_onInit n) (trace s)"
            "timers ?s1 = filter (\<lambda>u. tm_id u \<noteq> tm_id tm) (timers s)"
            "now ?s1 = max (now s) (tm_due tm)"
      by (simp_all add: fire_def run_task_def task)
    have "\<forall>u \<in> set (timers ?s1). T < tm_due u \<or> is_onChange_task (tm_task u)"
      using "1.prems" by (simp add: f(4))
    then have ih: "channels (advance T ?s1) = channels ?s1 \<and> objects (advance T ?s1) = objects ?s1
       \<and> filter (is_onInit n) (trace (advance T ?s1)) = filter (is_onInit n) (trace ?s1)
       \<and> set (timers (advance T ?s1)) \<subseteq> set (timers ?s1)
       \<and> now (advance T ?s1) = max (now ?s1) T"
      using "1.IH" [OF Some] by simp
    have "advance T s = advance T ?s1"
      by (subst advance.simps) (simp add: Some)
    then show ?thesis
      using ih tm(2) by (auto simp: f)
  qed
qed


lemma schedule_ttl_frame [simp]:
  "channels (schedule_ttl n a t s) = channels s"
  "now (schedule_ttl n a t s) = now s"
  "trace (schedule_ttl n a t s) = trace s"
  "config (objects (schedule_ttl n a t s) b) = config (objects s b)"
  "signal (objects (schedule_ttl n a t s) b) = signal (objects s b)"
  "isInitialized (objects (schedule_ttl n a t s) b) = isInitialized (objects s b)"
  by (simp_all add: schedule_ttl_def split_beta)

lemma timers_schedule_ttl:
  "timers (schedule_ttl n a t s) =
     timers s @ (if ms t = 0 then []
                 else [\<lparr>tm_id = next_timer s, tm_due = now s + timer_delay (runtime s) (ms t),
                        tm_task = ClearChannel n\<rparr>])"
  by (simp add: schedule_ttl_def split_beta)

lemma register_channel_facts:
  "channels (register_channel n cfg v s) = channels s @ [(n, next_ref s)]"
  "now (register_channel n cfg v s) = now s"
  "config (objects (register_channel n cfg v s) (next_ref s)) = cfg"
  "signal (objects (register_channel n cfg v s) (next_ref s)) = v"
  "isInitialized (objects (register_channel n cfg v s) (next_ref s)) = present v"
  "trace (register_channel n cfg v s) =
     trace s @ (if present v \<and> onInit_of cfg \<noteq> None then [OnInitCalled n v] else [])"
  "timers (register_channel n cfg v s) =
     timers s @ (if ms (ttl_of cfg) = 0 then []
                 else [\<lparr>tm_id = next_timer s,
                        tm_due = now s + timer_delay (runtime s) (ms (ttl_of cfg)),
                        tm_task = ClearChannel n\<rparr>])"
  by (cases "onInit_of cfg";
      simp add: register_channel_def Let_def new_channel_def timers_schedule_ttl)+

lemma channel_absent:
  assumes "map_of (channels s) name = None"
  shows "channel name cfg s =
           register_channel name cfg
             (if \<not> is_undefined (fst (getFromStorage (storageKey_of name cfg) (storage_of cfg) (init s)))
              then fst (getFromStorage (storageKey_of name cfg) (storage_of cfg) (init s))
              else initialValue_of cfg)
             (snd (getFromStorage (storageKey_of name cfg) (storage_of cfg) (init s)))"
  using assms by (simp add: channel_def Let_def split_beta)

lemma channel_created:
  assumes absent: "map_of (channels s) name = None"
  shows "map_of (channels (channel name cfg s)) name = Some (next_ref s)"
    and "config (objects (channel name cfg s) (next_ref s)) = cfg"
    and "isInitialized (objects (channel name cfg s) (next_ref s)) =
           present (signal (objects (channel name cfg s) (next_ref s)))"
    and "filter (is_onInit name) (trace (channel name cfg s)) =
           filter (is_onInit name) (trace s) @
           (if present (signal (objects (channel name cfg s) (next_ref s))) \<and> onInit_of cfg \<noteq> None
            then [OnInitCalled name (signal (objects (channel name cfg s) (next_ref s)))] else [])"
    and "now (channel name cfg s) = now s"
    and "\<forall>tm \<in> set (timers (channel name cfg s)).
           tm \<in> set (timers s)
           \<or> ms (ttl_of cfg) \<noteq> 0 \<and> tm_due tm = now s + timer_delay (runtime s) (ms (ttl_of cfg))"
proof -
  let ?g = "getFromStorage (storageKey_of name cfg) (storage_of cfg) (init s)"
  let ?v = "if \<not> is_undefined (fst ?g) then fst ?g else initialValue_of cfg"
  have c: "channel name cfg s = register_channel name cfg ?v (snd ?g)"
    by (rule channel_absent [OF absent])
  have n: "next_ref (snd ?g) = next_ref s" "channels (snd ?g) = channels s"
          "now (snd ?g) = now s" "timers (snd ?g) = timers s" "trace (snd ?g) = trace s"
          "runtime (snd ?g) = runtime s"
    by simp_all
  note r = register_channel_facts [of name cfg ?v "snd ?g", unfolded n]
  show "map_of (channels (channel name cfg s)) name = Some (next_ref s)"
    using absent unfolding c r(1) by (simp add: map_add_def)
  show "config (objects (channel name cfg s) (next_ref s)) = cfg"
    unfolding c by (rule r(3))
  show "isInitialized (objects (channel name cfg s) (next_ref s)) =
           present (signal (objects (channel name cfg s) (next_ref s)))"
    unfolding c r(4) r(5) ..
  show "filter (is_onInit name) (trace (channel name cfg s)) =
           filter (is_onInit name) (trace s) @
           (if present (signal (objects (channel name cfg s) (next_ref s))) \<and> onInit_of cfg \<noteq> None
            then [OnInitCalled name (signal (objects (channel name cfg s) (next_ref s)))] else [])"
    unfolding c r(4) r(6) by simp
  show "now (channel name cfg s) = now s"
    unfolding c by (rule r(2))
  show "\<forall>tm \<in> set (timers (channel name cfg s)).
           tm \<in> set (timers s)
           \<or> ms (ttl_of cfg) \<noteq> 0 \<and> tm_due tm = now s + timer_delay (runtime s) (ms (ttl_of cfg))"
    unfolding c r(7) by simp
qed

lemma publishes_onInit:
  assumes ex: "map_of (channels s) name = Some a"
      and quiet: "\<forall>tm \<in> set (timers s). T < tm_due tm \<or> is_onChange_task (tm_task tm)"
      and bound: "now s + sum_list (map fst ps) \<le> T"
  shows "filter (is_onInit name) (trace (publishes name ps s)) =
           filter (is_onInit name) (trace s) @
           (if isInitialized (objects s a) \<or> onInit_of (config (objects s a)) = None then []
            else map (OnInitCalled name)
                   (take 1 (filter present (held (config (objects s a)) (map snd ps)))))"
  using ex quiet bound
proof (induction ps arbitrary: s)
  case Nil
  then show ?case by (simp add: held_def)
next
  case (Cons gv ps)
  obtain g v where gv: "gv = (g, v)" by (cases gv)
  let ?cfg = "config (objects s a)"
  let ?s' = "advance (now s + g) s"
  have "\<forall>tm \<in> set (timers s). now s + g < tm_due tm \<or> is_onChange_task (tm_task tm)"
    using Cons.prems(2,3) by (fastforce simp: gv)
  note adv = advance_harmless [OF this, of name]
  have ex': "map_of (channels ?s') name = Some a" using Cons.prems(1) adv by simp
  note p = publish_existing [OF ex', of v]
  let ?s'' = "publish name v ?s'"
  have o': "objects ?s' = objects s" using adv by simp
  have "filter (is_onInit name) (trace (publishes name ps ?s'')) =
           filter (is_onInit name) (trace ?s'') @
           (if isInitialized (objects ?s'' a) \<or> onInit_of (config (objects ?s'' a)) = None then []
            else map (OnInitCalled name)
                   (take 1 (filter present (held (config (objects ?s'' a)) (map snd ps)))))"
  proof (rule Cons.IH)
    show "map_of (channels ?s'') name = Some a" using ex' by (simp add: p(1))
    show "\<forall>tm \<in> set (timers ?s''). T < tm_due tm \<or> is_onChange_task (tm_task tm)"
      using p(7) adv Cons.prems(2) by blast
    show "now ?s'' + sum_list (map fst ps) \<le> T"
      using Cons.prems(3) adv by (simp add: p(2) gv)
  qed
  then show ?case
    using adv by (simp add: gv p(3,4,6) o' held_def)
qed


text \<open>
  C3. A channel is created by \<^verbatim>\<open>channel(name, config)\<close> and then published to, time passing
  between the publishes (pending onChange callbacks may run; the channel is not cleared:
  the delay the host gives its TTL timer, if it has one, is longer than the time that
  passes, and no other pending timer that could clear it comes due). The values the channel holds in turn are the resolved initial
  value and the transformed value of each accepted publish. The calls of onInit for the
  channel in the whole run are: none when no onInit is configured or none of these values
  is present, and otherwise exactly one, with the first of these values that is present.
\<close>

theorem onInit_once:
  assumes absent: "map_of (channels s) name = None"
      and quiet: "\<forall>tm \<in> set (timers s).
                    now s + sum_list (map fst ps) < tm_due tm \<or> is_onChange_task (tm_task tm)"
      and alive: "ms (ttl_of cfg) = 0
                  \<or> sum_list (map fst ps) < timer_delay (runtime s) (ms (ttl_of cfg))"
  shows "filter (is_onInit name) (trace (publishes name ps (channel name cfg s))) =
           filter (is_onInit name) (trace s) @
           (if onInit_of cfg = None then []
            else map (OnInitCalled name)
                   (take 1 (filter present
                      (getValue name (channel name cfg s) # held cfg (map snd ps)))))"
proof -
  let ?s1 = "channel name cfg s"
  note c = channel_created [OF absent, of cfg]
  have g: "getValue name ?s1 = signal (objects ?s1 (next_ref s))"
    by (simp add: getValue_def c(1))
  have q: "\<forall>tm \<in> set (timers ?s1).
             now s + sum_list (map fst ps) < tm_due tm \<or> is_onChange_task (tm_task tm)"
    using c(6) quiet alive by fastforce
  have "filter (is_onInit name) (trace (publishes name ps ?s1)) =
           filter (is_onInit name) (trace ?s1) @
           (if isInitialized (objects ?s1 (next_ref s))
               \<or> onInit_of (config (objects ?s1 (next_ref s))) = None then []
            else map (OnInitCalled name)
                   (take 1 (filter present (held (config (objects ?s1 (next_ref s))) (map snd ps)))))"
    by (rule publishes_onInit [OF c(1) q]) (simp add: c(5))
  then show ?thesis
    by (simp add: c(2,3,4) g)
qed


definition login_config :: "string ChannelConfig" where
  "login_config = (only_initialValue Undefined)
      \<lparr>onInit := Some (\<lambda>v. Throws), onChange := Some (\<lambda>v v'. Returns),
       debounce := Some 5, ttl := Some 1000\<rparr>"

theorem onInit_once_witness:
  "filter (is_onInit ''login'')
     (trace (publishes ''login'' [(0, Null), (10, Val ''x''), (10, Val ''y'')]
               (channel ''login'' (Some login_config) initial_bus))) =
     [OnInitCalled ''login'' (Val ''x'')]"
  using onInit_once [of initial_bus "''login''" "[(0, Null), (10, Val ''x''), (10, Val ''y'')]"
          "Some login_config"]
  by (simp add: login_config_def eval_defs getValue_def held_def accepted_def
        transformed_value_def)

section \<open>Instant events: emit, on, once\<close>

lemmas topic_defs = on_def once_def off_def unlisten_def is_once_def rejects_def transformed_def
  debounce_of_def throttle_of_def call_listener_def executeListener_def wrappedListener_def
  emit_def set_size_def set_delete_def only_once_def called_def console_error_def
  clear_if_set_def clearTimeout_def setTimeout_def timer_delay_def TIMEOUT_MAX_def Let_def

lemma once_fresh:
  assumes "map_of (eventListeners s) name = None"
  shows "once name fn s =
    (\<lparr>w_id = Suc (next_ref s), w_eventName = name, w_listener = fn,
      w_options = Some only_once, w_listeners = next_ref s\<rparr>,
     s\<lparr>eventListeners := eventListeners s @ [(name, next_ref s)],
       sets := (sets s)(next_ref s :=
          [Some \<lparr>w_id = Suc (next_ref s), w_eventName = name, w_listener = fn,
                 w_options = Some only_once, w_listeners = next_ref s\<rparr>]),
       vars := (vars s)(Suc (next_ref s) :=
          \<lparr>debounceTimer = None, lastCallTime = 0, hasExecuted = False\<rparr>),
       next_ref := Suc (Suc (next_ref s))\<rparr>)"
  using assms by (simp add: once_def on_def Let_def)

lemma emit_once_throws:
  assumes topic: "map_of (eventListeners s) name = Some la"
      and entries: "sets s la = [Some w]"
      and w: "w_options w = Some only_once" "w_listeners w = la" "w_eventName w = name"
      and body: "l_registers (w_listener w) = []"
      and fresh: "\<not> hasExecuted (vars s (w_id w))"
      and throws: "l_run (w_listener w) d = Throws"
  shows "emit name d s =
           s\<lparr>trace := trace s @ [ListenerCalled (w_id w) (l_id (w_listener w)) d],
             console := console s @ [LogError (''Error in event listener for \"'' @ name @ ''\":'')]\<rparr>"
  using assms
  by (simp add: emit_def set_size_def forEach.simps wrappedListener_def is_once_def rejects_def
        transformed_def debounce_of_def throttle_of_def only_once_def executeListener_def
        call_listener_def called_def console_error_def Let_def)

lemma emit_once_returns:
  assumes topic: "map_of (eventListeners s) name = Some la"
      and entries: "sets s la = [Some w]"
      and w: "w_options w = Some only_once" "w_listeners w = la" "w_eventName w = name"
      and body: "l_registers (w_listener w) = []"
      and fresh: "\<not> hasExecuted (vars s (w_id w))"
      and returns: "l_run (w_listener w) d = Returns"
  shows "emit name d s =
           s\<lparr>trace := trace s @ [ListenerCalled (w_id w) (l_id (w_listener w)) d],
             vars := (vars s)(w_id w := (vars s (w_id w))\<lparr>hasExecuted := True\<rparr>),
             timers := filter (\<lambda>t. Some (tm_id t) \<noteq> debounceTimer (vars s (w_id w))) (timers s),
             sets := (sets s)(la := [None]),
             eventListeners := filter (\<lambda>(k, r). k \<noteq> name) (eventListeners s)\<rparr>"
  using assms
  by (cases "debounceTimer (vars s (w_id w))")
     (simp_all add: emit_def set_size_def forEach.simps wrappedListener_def is_once_def rejects_def
        transformed_def debounce_of_def throttle_of_def only_once_def executeListener_def
        call_listener_def called_def unlisten_def set_delete_def clear_if_set_def
        clearTimeout_def Let_def)


lemma emit_absent: "map_of (eventListeners s) name = None \<Longrightarrow> emit name d s = s"
  by (simp add: emit_def)

lemma map_of_filter_key: "map_of (filter (\<lambda>(k, r). k \<noteq> name) xs) name = None"
  by (induction xs) auto

text \<open>
  A once listener with an empty body on a topic that has no listener yet, over two emits:
  what happens when it throws on the first payload, and when it returns.
\<close>

lemma once_on_new_topic:
  assumes fresh: "map_of (eventListeners s) name = None"
      and body: "l_registers fn = []"
  shows "(l_run fn x1 = Throws \<longrightarrow>
            trace (emit name x1 (snd (once name fn s))) =
              trace s @ [ListenerCalled (Suc (next_ref s)) (l_id fn) x1]
          \<and> \<not> hasExecuted (vars (emit name x1 (snd (once name fn s))) (Suc (next_ref s)))
          \<and> sets (emit name x1 (snd (once name fn s))) (next_ref s) = [Some (fst (once name fn s))]
          \<and> map_of (eventListeners (emit name x1 (snd (once name fn s)))) name = Some (next_ref s)
          \<and> LogError (''Error in event listener for \"'' @ name @ ''\":'')
               \<in> set (console (emit name x1 (snd (once name fn s))))
          \<and> trace (emit name x2 (emit name x1 (snd (once name fn s)))) =
              trace s @ [ListenerCalled (Suc (next_ref s)) (l_id fn) x1,
                         ListenerCalled (Suc (next_ref s)) (l_id fn) x2])
       \<and> (l_run fn x1 = Returns \<longrightarrow>
            trace (emit name x1 (snd (once name fn s))) =
              trace s @ [ListenerCalled (Suc (next_ref s)) (l_id fn) x1]
          \<and> hasExecuted (vars (emit name x1 (snd (once name fn s))) (Suc (next_ref s)))
          \<and> sets (emit name x1 (snd (once name fn s))) (next_ref s) = [None]
          \<and> map_of (eventListeners (emit name x1 (snd (once name fn s)))) name = None
          \<and> trace (emit name x2 (emit name x1 (snd (once name fn s)))) =
              trace s @ [ListenerCalled (Suc (next_ref s)) (l_id fn) x1])"
proof (intro conjI impI)
  let ?w = "\<lparr>w_id = Suc (next_ref s), w_eventName = name, w_listener = fn,
             w_options = Some only_once, w_listeners = next_ref s\<rparr>"
  let ?s1 = "snd (once name fn s)"
  note o = once_fresh [OF fresh, of fn]
  have s1: "map_of (eventListeners ?s1) name = Some (next_ref s)" "sets ?s1 (next_ref s) = [Some ?w]"
           "\<not> hasExecuted (vars ?s1 (w_id ?w))" "trace ?s1 = trace s"
    using fresh by (simp_all add: o map_add_def)
  {
    assume t: "l_run fn x1 = Throws"
    have e1: "emit name x1 ?s1 =
           ?s1\<lparr>trace := trace ?s1 @ [ListenerCalled (w_id ?w) (l_id (w_listener ?w)) x1],
               console := console ?s1 @ [LogError (''Error in event listener for \"'' @ name @ ''\":'')]\<rparr>"
      by (rule emit_once_throws [OF s1(1,2) _ _ _ _ s1(3)]) (simp_all add: body t)
    show "trace (emit name x1 ?s1) = trace s @ [ListenerCalled (Suc (next_ref s)) (l_id fn) x1]"
      by (simp add: e1 s1(4))
    show "\<not> hasExecuted (vars (emit name x1 ?s1) (Suc (next_ref s)))"
      using s1(3) by (simp add: e1)
    show "sets (emit name x1 ?s1) (next_ref s) = [Some (fst (once name fn s))]"
      by (simp add: e1 s1(2)) (simp add: o)
    show "map_of (eventListeners (emit name x1 ?s1)) name = Some (next_ref s)"
      by (simp add: e1 s1(1))
    show "LogError (''Error in event listener for \"'' @ name @ ''\":'')
               \<in> set (console (emit name x1 ?s1))"
      by (simp add: e1)
    let ?s2 = "emit name x1 ?s1"
    have s2: "map_of (eventListeners ?s2) name = Some (next_ref s)" "sets ?s2 (next_ref s) = [Some ?w]"
             "\<not> hasExecuted (vars ?s2 (w_id ?w))"
      using s1 by (simp_all add: e1)
    have "trace (emit name x2 ?s2) =
            trace ?s2 @ [ListenerCalled (w_id ?w) (l_id (w_listener ?w)) x2]"
    proof (cases "l_run fn x2")
      case Returns
      show ?thesis
        by (subst emit_once_returns [OF s2(1,2) _ _ _ _ s2(3)]) (simp_all add: body Returns)
    next
      case Throws
      show ?thesis
        by (subst emit_once_throws [OF s2(1,2) _ _ _ _ s2(3)]) (simp_all add: body Throws)
    qed
    then show "trace (emit name x2 ?s2) =
              trace s @ [ListenerCalled (Suc (next_ref s)) (l_id fn) x1,
                         ListenerCalled (Suc (next_ref s)) (l_id fn) x2]"
      by (simp add: e1 s1(4))
  next
    assume r: "l_run fn x1 = Returns"
    have e1: "emit name x1 ?s1 =
           ?s1\<lparr>trace := trace ?s1 @ [ListenerCalled (w_id ?w) (l_id (w_listener ?w)) x1],
             vars := (vars ?s1)(w_id ?w := (vars ?s1 (w_id ?w))\<lparr>hasExecuted := True\<rparr>),
             timers := filter (\<lambda>t. Some (tm_id t) \<noteq> debounceTimer (vars ?s1 (w_id ?w))) (timers ?s1),
             sets := (sets ?s1)(next_ref s := [None]),
             eventListeners := filter (\<lambda>(k, r). k \<noteq> name) (eventListeners ?s1)\<rparr>"
      by (rule emit_once_returns [OF s1(1,2) _ _ _ _ s1(3)]) (simp_all add: body r)
    show "trace (emit name x1 ?s1) = trace s @ [ListenerCalled (Suc (next_ref s)) (l_id fn) x1]"
      by (simp add: e1 s1(4))
    show "hasExecuted (vars (emit name x1 ?s1) (Suc (next_ref s)))"
      by (simp add: e1)
    show "sets (emit name x1 ?s1) (next_ref s) = [None]"
      by (simp add: e1)
    show gone: "map_of (eventListeners (emit name x1 ?s1)) name = None"
      by (simp add: e1 map_of_filter_key)
    show "trace (emit name x2 (emit name x1 ?s1)) =
              trace s @ [ListenerCalled (Suc (next_ref s)) (l_id fn) x1]"
      by (simp add: emit_absent [OF gone]) (simp add: e1 s1(4))
  }
qed

definition fragile :: "string listener" where
  "fragile = Listener 7 (\<lambda>d. if d = Val ''boom'' then Throws else Returns) []"

definition autosave :: "string listener" where
  "autosave = Listener 3 (\<lambda>d. if d = Val ''draft-1'' then Throws else Returns) []"

text \<open>
  C8. The listener of a once registration is called exactly once over two emits when it
  returns normally. The code does not keep this for a listener that throws: here
  \<open>autosave\<close> throws on its first payload and is called by both emits, through the same
  wrapper.
\<close>

theorem once_called_twice:
  "trace (emit ''save'' (Val ''draft-2'')
            (emit ''save'' (Val ''draft-1'') (snd (once ''save'' autosave initial_bus)))) =
     [ListenerCalled 1 3 (Val ''draft-1''), ListenerCalled 1 3 (Val ''draft-2'')]"
  by (simp add: autosave_def initial_bus_def topic_defs forEach.simps)

text \<open>
  The emit of the specification, for comparison: it walks a copy of the listener set taken
  when the emit begins.
\<close>

definition emit_snapshot :: "string \<Rightarrow> 'a jsval \<Rightarrow> 'a bus \<Rightarrow> 'a bus" where
  "emit_snapshot eventName d s =
     (case map_of (eventListeners s) eventName of
        None \<Rightarrow> s
      | Some la \<Rightarrow>
          if set_size (sets s la) = 0 then s
          else fold (\<lambda>e st. case e of None \<Rightarrow> st | Some w \<Rightarrow> wrappedListener w d st)
                 (sets s la) s)"

definition hello :: "string listener" where
  "hello = Listener 2 (\<lambda>d. Returns) []"

definition greeter :: "string listener" where
  "greeter = Listener 1 (\<lambda>d. Returns) [(''ping'', hello, None)]"

definition ping_bus :: "string bus" where
  "ping_bus = snd (on ''ping'' greeter None initial_bus)"

text \<open>
  C7, as stated, fails: only the wrapper of \<open>greeter\<close> is in the listener set of the topic
  when the emit begins, \<open>greeter\<close> registers \<open>hello\<close> on the same topic while it runs, and
  the same emit calls \<open>hello\<close>; an emit over a snapshot would not.
\<close>

theorem emit_snapshot_counterexample:
  "map (map_option w_id) (sets ping_bus 0) = [Some 1]
   \<and> trace (emit_snapshot ''ping'' (Val ''x'') ping_bus) = [ListenerCalled 1 1 (Val ''x'')]
   \<and> trace (emit ''ping'' (Val ''x'') ping_bus) =
       [ListenerCalled 1 1 (Val ''x''), ListenerCalled 2 2 (Val ''x'')]"
  by (simp add: ping_bus_def greeter_def hello_def initial_bus_def topic_defs forEach.simps
        emit_snapshot_def)

section \<open>Well-formed listener sets\<close>

text \<open>The entries of a \<^verbatim>\<open>Set\<close> that have not been deleted.\<close>

fun live :: "'a WrappedListener option list \<Rightarrow> 'a WrappedListener list" where
  "live [] = []"
| "live (None # es) = live es"
| "live (Some x # es) = x # live es"

text \<open>
  What holds of the \<^verbatim>\<open>Set\<close> object \<open>la\<close> in every state the code can reach: the object has
  been allocated, and each wrapper in it was built by \<^verbatim>\<open>on\<close> for this very set, under an
  identity of its own.
\<close>

definition set_ok :: "nat \<Rightarrow> 'a bus \<Rightarrow> bool" where
  "set_ok la s \<longleftrightarrow>
     la < next_ref s
     \<and> (\<forall>x \<in> set (live (sets s la)). w_listeners x = la \<and> w_id x < next_ref s)
     \<and> distinct (map w_id (live (sets s la)))"

lemma live_append [simp]: "live (xs @ ys) = live xs @ live ys"
  by (induction xs rule: live.induct) simp_all

lemma live_set_delete: "live (set_delete i es) = filter (\<lambda>x. w_id x \<noteq> i) (live es)"
  by (induction es rule: live.induct) (simp_all add: set_delete_def)

lemma nth_live: "j < length es \<Longrightarrow> es ! j = Some w \<Longrightarrow> w \<in> set (live es)"
proof (induction es arbitrary: j rule: live.induct)
  case 1
  then show ?case by simp
next
  case (2 es)
  then show ?case by (cases j) simp_all
next
  case (3 x es)
  then show ?case by (cases j) simp_all
qed

lemma set_size_live: "set_size es = length (live es)"
  by (induction es rule: live.induct) (simp_all add: set_size_def)

lemma distinct_live_tail:
  "distinct (map w_id (live (x # es))) \<Longrightarrow> distinct (map w_id (live es))"
  by (cases x) simp_all

lemma distinct_live_head:
  "distinct (map w_id (live (Some e # es))) \<Longrightarrow> w \<in> set (live es) \<Longrightarrow> w_id e \<noteq> w_id w"
  by (auto simp: image_iff)

lemma distinct_ids_nth:
  assumes "distinct (map w_id (live es))"
      and "i < length es" "es ! i = Some e"
      and "j < length es" "es ! j = Some w"
      and "i \<noteq> j"
  shows "w_id e \<noteq> w_id w"
  using assms
proof (induction es arbitrary: i j)
  case Nil
  then show ?case by simp
next
  case (Cons x es)
  show ?case
  proof (cases i)
    case 0
    with Cons.prems(6) obtain j' where j: "j = Suc j'" by (cases j) simp_all
    from 0 Cons.prems(3) have x: "x = Some e" by simp
    from j Cons.prems(4,5) have "w \<in> set (live es)" by (simp add: nth_live)
    with Cons.prems(1) x show ?thesis by (simp add: distinct_live_head)
  next
    case (Suc i')
    note i = this
    show ?thesis
    proof (cases j)
      case 0
      from 0 Cons.prems(5) have x: "x = Some w" by simp
      from i Cons.prems(2,3) have "e \<in> set (live es)" by (simp add: nth_live)
      with Cons.prems(1) x have "w_id w \<noteq> w_id e" by (simp add: distinct_live_head)
      then show ?thesis by simp
    next
      case (Suc j')
      have d: "distinct (map w_id (live es))" using Cons.prems(1) by (rule distinct_live_tail)
      have "i' < length es" "es ! i' = Some e" "j' < length es" "es ! j' = Some w" "i' \<noteq> j'"
        using Cons.prems(2-6) i Suc by simp_all
      with d show ?thesis by (rule Cons.IH)
    qed
  qed
qed

lemma nth_set_delete:
  "j < length es \<Longrightarrow> es ! j = Some w \<Longrightarrow> w_id w \<noteq> i \<Longrightarrow> set_delete i es ! j = Some w"
  by (simp add: set_delete_def)

lemma length_set_delete [simp]: "length (set_delete i es) = length es"
  by (simp add: set_delete_def)

text \<open>
  \<open>grows la s s'\<close>: from \<open>s\<close> to \<open>s'\<close> new objects were allocated, wrappers built for the set
  \<open>la\<close> were appended to it, topics were created; nothing that existed was changed.
\<close>

definition grows :: "nat \<Rightarrow> 'a bus \<Rightarrow> 'a bus \<Rightarrow> bool" where
  "grows la s s' \<longleftrightarrow>
     next_ref s \<le> next_ref s'
     \<and> (\<exists>added. sets s' la = sets s la @ map Some added
           \<and> (\<forall>x \<in> set added. w_listeners x = la \<and> next_ref s \<le> w_id x \<and> w_id x < next_ref s')
           \<and> distinct (map w_id added))
     \<and> (\<forall>n r. map_of (eventListeners s) n = Some r \<longrightarrow> map_of (eventListeners s') n = Some r)
     \<and> (\<forall>i < next_ref s. vars s' i = vars s i)
     \<and> trace s' = trace s \<and> timers s' = timers s"

lemma live_map_Some [simp]: "live (map Some xs) = xs"
  by (induction xs) simp_all

lemma grows_refl: "grows la s s"
  by (auto simp: grows_def intro: exI [of _ "[]"])

lemma grows_trans:
  assumes "grows la s s'" and "grows la s' s''"
  shows "grows la s s''"
proof -
  from assms(1) obtain a1 where a1:
    "next_ref s \<le> next_ref s'" "sets s' la = sets s la @ map Some a1"
    "\<forall>x \<in> set a1. w_listeners x = la \<and> next_ref s \<le> w_id x \<and> w_id x < next_ref s'"
    "distinct (map w_id a1)"
    "\<forall>n r. map_of (eventListeners s) n = Some r \<longrightarrow> map_of (eventListeners s') n = Some r"
    "\<forall>i < next_ref s. vars s' i = vars s i" "trace s' = trace s" "timers s' = timers s"
    by (auto simp: grows_def)
  from assms(2) obtain a2 where a2:
    "next_ref s' \<le> next_ref s''" "sets s'' la = sets s' la @ map Some a2"
    "\<forall>x \<in> set a2. w_listeners x = la \<and> next_ref s' \<le> w_id x \<and> w_id x < next_ref s''"
    "distinct (map w_id a2)"
    "\<forall>n r. map_of (eventListeners s') n = Some r \<longrightarrow> map_of (eventListeners s'') n = Some r"
    "\<forall>i < next_ref s'. vars s'' i = vars s' i" "trace s'' = trace s'" "timers s'' = timers s'"
    by (auto simp: grows_def)
  have "sets s'' la = sets s la @ map Some (a1 @ a2)" using a1(2) a2(2) by simp
  moreover have "\<forall>x \<in> set (a1 @ a2). w_listeners x = la \<and> next_ref s \<le> w_id x \<and> w_id x < next_ref s''"
    using a1(1,3) a2(1,3) by fastforce
  moreover have "distinct (map w_id (a1 @ a2))"
    using a1(3,4) a2(3,4) by fastforce
  ultimately have "\<exists>added. sets s'' la = sets s la @ map Some added
           \<and> (\<forall>x \<in> set added. w_listeners x = la \<and> next_ref s \<le> w_id x \<and> w_id x < next_ref s'')
           \<and> distinct (map w_id added)"
    by blast
  moreover have "\<forall>i < next_ref s. vars s'' i = vars s i" using a1(1,6) a2(6) by auto
  ultimately show ?thesis
    using a1(1,5,7,8) a2(1,5,7,8) unfolding grows_def by auto
qed

lemma grows_on:
  assumes "la < next_ref s"
  shows "grows la s (snd (on n l opt s))"
proof (cases "map_of (eventListeners s) n")
  case None
  from assms have "sets (snd (on n l opt s)) la = sets s la @ map Some []"
    by (simp add: on_def Let_def None)
  then show ?thesis
    unfolding grows_def
    by (intro conjI exI [of _ "[]"]) (auto simp: on_def Let_def None map_add_def)
next
  case (Some lb)
  show ?thesis
  proof (cases "lb = la")
    case True
    let ?x = "\<lparr>w_id = next_ref s, w_eventName = n, w_listener = l, w_options = opt, w_listeners = la\<rparr>"
    have "sets (snd (on n l opt s)) la = sets s la @ map Some [?x]"
      by (simp add: on_def Let_def Some True)
    then show ?thesis
      unfolding grows_def
      by (intro conjI exI [of _ "[?x]"]) (auto simp: on_def Let_def Some True)
  next
    case False
    then have "sets (snd (on n l opt s)) la = sets s la @ map Some []"
      by (simp add: on_def Let_def Some)
    then show ?thesis
      unfolding grows_def
      by (intro conjI exI [of _ "[]"]) (auto simp: on_def Let_def Some)
  qed
qed

lemma grows_registrations:
  assumes "la < next_ref s"
  shows "grows la s (fold (\<lambda>r st. snd (on (fst r) (fst (snd r)) (snd (snd r)) st)) rs s)"
  using assms
proof (induction rs arbitrary: s)
  case Nil
  then show ?case by (simp add: grows_refl)
next
  case (Cons r rs)
  let ?s' = "snd (on (fst r) (fst (snd r)) (snd (snd r)) s)"
  have g: "grows la s ?s'" using Cons.prems by (rule grows_on)
  then have "la < next_ref ?s'" using Cons.prems by (auto simp: grows_def)
  then have "grows la ?s'
               (fold (\<lambda>r st. snd (on (fst r) (fst (snd r)) (snd (snd r)) st)) rs ?s')"
    by (rule Cons.IH)
  with g show ?case by (simp add: grows_trans)
qed

lemma set_ok_grows:
  assumes "set_ok la s" and "grows la s s'"
  shows "set_ok la s'"
proof -
  from assms(2) obtain added where a:
    "next_ref s \<le> next_ref s'" "sets s' la = sets s la @ map Some added"
    "\<forall>x \<in> set added. w_listeners x = la \<and> next_ref s \<le> w_id x \<and> w_id x < next_ref s'"
    "distinct (map w_id added)"
    by (auto simp: grows_def)
  have "distinct (map w_id (live (sets s la)) @ map w_id added)"
    using assms(1) a(3,4) by (fastforce simp: set_ok_def)
  then show ?thesis
    using assms(1) a(1,2,3) by (fastforce simp: set_ok_def)
qed


text \<open>
  \<open>keeps la name j w s s'\<close>: from \<open>s\<close> to \<open>s'\<close> the wrapper \<open>w\<close> stays at position \<open>j\<close> of the set
  \<open>la\<close>, its variables are untouched, the set stays well formed and keeps its topic, and the
  trace is extended.
\<close>

definition keeps :: "nat \<Rightarrow> string \<Rightarrow> nat \<Rightarrow> 'a WrappedListener \<Rightarrow> 'a bus \<Rightarrow> 'a bus \<Rightarrow> bool" where
  "keeps la name j w s s' \<longleftrightarrow>
     set_ok la s' \<and> j < length (sets s' la) \<and> sets s' la ! j = Some w
     \<and> length (sets s la) \<le> length (sets s' la)
     \<and> (map_of (eventListeners s) name = Some la \<longrightarrow> map_of (eventListeners s') name = Some la)
     \<and> vars s' (w_id w) = vars s (w_id w)
     \<and> next_ref s \<le> next_ref s'
     \<and> (\<exists>xs. trace s' = trace s @ xs)"

lemma keeps_refl:
  "set_ok la s \<Longrightarrow> j < length (sets s la) \<Longrightarrow> sets s la ! j = Some w \<Longrightarrow> keeps la name j w s s"
  by (simp add: keeps_def)

lemma keeps_trans:
  assumes "keeps la name j w s s'" and "keeps la name j w s' s''"
  shows "keeps la name j w s s''"
proof -
  from assms obtain xs ys where "trace s' = trace s @ xs" "trace s'' = trace s' @ ys"
    by (auto simp: keeps_def)
  then have "trace s'' = trace s @ (xs @ ys)" by simp
  then have "\<exists>zs. trace s'' = trace s @ zs" by blast
  then show ?thesis using assms by (simp add: keeps_def)
qed

lemma keeps_same_sets:
  assumes "set_ok la s" "j < length (sets s la)" "sets s la ! j = Some w"
      and "sets s' = sets s" "next_ref s' = next_ref s" "eventListeners s' = eventListeners s"
      and "vars s' (w_id w) = vars s (w_id w)" "\<exists>xs. trace s' = trace s @ xs"
  shows "keeps la name j w s s'"
  using assms by (simp add: keeps_def set_ok_def)

lemma keeps_grows:
  assumes ok: "set_ok la s" and tgt: "j < length (sets s la)" "sets s la ! j = Some w"
      and g: "grows la s s'"
  shows "keeps la name j w s s'"
proof -
  have ok': "set_ok la s'" using ok g by (rule set_ok_grows)
  have "w \<in> set (live (sets s la))" using tgt by (rule nth_live)
  then have "w_id w < next_ref s" using ok by (simp add: set_ok_def)
  then have "vars s' (w_id w) = vars s (w_id w)" using g by (simp add: grows_def)
  moreover have "j < length (sets s' la)" "sets s' la ! j = Some w" "length (sets s la) \<le> length (sets s' la)"
    using g tgt by (auto simp: grows_def nth_append)
  ultimately show ?thesis
    using ok' g by (simp add: keeps_def grows_def)
qed

lemma set_ok_set_delete:
  assumes "set_ok la s"
  shows "set_ok la (s\<lparr>sets := (sets s)(la := set_delete i (sets s la))\<rparr>)"
  using assms by (simp add: set_ok_def live_set_delete distinct_map_filter)

lemma keeps_unlisten:
  assumes ok: "set_ok la s" and tgt: "j < length (sets s la)" "sets s la ! j = Some w"
      and e: "w_listeners e = la" "w_id e \<noteq> w_id w"
  shows "keeps la name j w s (unlisten e s)"
proof -
  let ?s1 = "clear_if_set (debounceTimer (vars s (w_id e))) s"
  let ?s2 = "?s1\<lparr>sets := (sets ?s1)(la := set_delete (w_id e) (sets ?s1 la))\<rparr>"
  have nth: "set_delete (w_id e) (sets s la) ! j = Some w"
    using tgt e(2) by (simp add: nth_set_delete)
  then have "w \<in> set (live (set_delete (w_id e) (sets s la)))"
    using tgt(1) by (simp add: nth_live)
  then have size: "set_size (sets ?s2 la) \<noteq> 0"
    by (auto simp: set_size_live)
  have u: "unlisten e s = ?s2"
    using size by (simp add: unlisten_def Let_def e(1))
  have "set_ok la ?s2"
    using set_ok_set_delete [OF ok, of "w_id e"] by (simp add: set_ok_def)
  then show ?thesis
    using nth tgt(1) by (simp add: u keeps_def)
qed


lemma keepsD:
  "keeps la name j w s s' \<Longrightarrow>
   set_ok la s' \<and> j < length (sets s' la) \<and> sets s' la ! j = Some w"
  by (simp add: keeps_def)

lemma keeps_then:
  assumes "keeps la name j w s s'"
      and "\<And>ok. set_ok la s' \<Longrightarrow> j < length (sets s' la) \<Longrightarrow> sets s' la ! j = Some w
             \<Longrightarrow> keeps la name j w s' s''"
  shows "keeps la name j w s s''"
  using assms keepsD keeps_trans by blast

lemma keeps_call_listener:
  assumes ok: "set_ok la s" and tgt: "j < length (sets s la)" "sets s la ! j = Some w"
  shows "keeps la name j w s (call_listener e d s)"
proof -
  let ?s0 = "called (ListenerCalled (w_id e) (l_id (w_listener e)) d) s"
  have k0: "keeps la name j w s ?s0"
    using ok tgt by (rule keeps_same_sets) (simp_all add: called_def)
  have "la < next_ref ?s0" using ok by (simp add: set_ok_def)
  then have "grows la ?s0 (call_listener e d s)"
    unfolding call_listener_def by (rule grows_registrations)
  then have "keeps la name j w ?s0 (call_listener e d s)"
    using keepsD [OF k0] keeps_grows by blast
  with k0 show ?thesis by (rule keeps_trans)
qed

lemma keeps_executeListener:
  assumes ok: "set_ok la s" and tgt: "j < length (sets s la)" "sets s la ! j = Some w"
      and e: "w_listeners e = la" "w_id e \<noteq> w_id w"
  shows "keeps la name j w s (executeListener e d s)"
proof -
  let ?s1 = "call_listener e d s"
  let ?s2 = "?s1\<lparr>vars := (vars ?s1)(w_id e := (vars ?s1 (w_id e))\<lparr>hasExecuted := True\<rparr>)\<rparr>"
  have k1: "keeps la name j w s ?s1" using ok tgt by (rule keeps_call_listener)
  note d1 = keepsD [OF k1]
  show ?thesis
  proof (cases "l_run (w_listener e) d")
    case Throws
    have "keeps la name j w ?s1
            (console_error (''Error in event listener for \"'' @ w_eventName e @ ''\":'') ?s1)"
      using d1 by (intro keeps_same_sets) simp_all
    with k1 show ?thesis
      using Throws keeps_trans by (fastforce simp: executeListener_def Let_def)
  next
    case Returns
    have k2: "keeps la name j w ?s1 ?s2"
      using d1 e(2) by (intro keeps_same_sets) simp_all
    note d2 = keepsD [OF k2]
    have k3: "keeps la name j w ?s2 (unlisten e ?s2)"
      using d2 e by (intro keeps_unlisten) simp_all
    show ?thesis
    proof (cases "is_once (w_options e)")
      case True
      have "keeps la name j w s (unlisten e ?s2)"
        using k1 k2 k3 keeps_trans by blast
      then show ?thesis using Returns True by (simp add: executeListener_def Let_def)
    next
      case False
      have "keeps la name j w s ?s2" using k1 k2 by (rule keeps_trans)
      then show ?thesis using Returns False by (simp add: executeListener_def Let_def)
    qed
  qed
qed

lemma keeps_wrappedListener:
  assumes ok: "set_ok la s" and tgt: "j < length (sets s la)" "sets s la ! j = Some w"
      and e: "w_listeners e = la" "w_id e \<noteq> w_id w"
  shows "keeps la name j w s (wrappedListener e d s)"
proof -
  let ?d = "transformed (w_options e) d"
  let ?s1 = "clear_if_set (debounceTimer (vars s (w_id e))) s"
  let ?s2 = "snd (setTimeout (ListenerCallback e ?d) (debounce_of (w_options e)) ?s1)"
  let ?deb = "?s2\<lparr>vars := (vars ?s2)(w_id e := (vars ?s2 (w_id e))
                \<lparr>debounceTimer := Some (fst (setTimeout (ListenerCallback e ?d)
                                            (debounce_of (w_options e)) ?s1))\<rparr>)\<rparr>"
  let ?thr = "s\<lparr>vars := (vars s)(w_id e := (vars s (w_id e))\<lparr>lastCallTime := now s\<rparr>)\<rparr>"
  have k0: "keeps la name j w s s" using ok tgt by (rule keeps_refl)
  have kd: "keeps la name j w s ?deb"
    using ok tgt e(2) by (intro keeps_same_sets) simp_all
  have kt: "keeps la name j w s ?thr"
    using ok tgt e(2) by (intro keeps_same_sets) simp_all
  have kte: "keeps la name j w s (executeListener e ?d ?thr)"
    using kt keepsD [OF kt] keeps_executeListener [OF _ _ _ e] keeps_trans by blast
  have ke: "keeps la name j w s (executeListener e ?d s)"
    using ok tgt e by (rule keeps_executeListener)
  show ?thesis
    using k0 kd kte ke by (simp add: wrappedListener_def Let_def split_beta)
qed


section \<open>Reachable states\<close>

text \<open>
  All listener sets of a state are well formed: the topics refer to allocated objects,
  every allocated set is well formed, and what is not allocated yet is empty.
\<close>

definition wf_sets :: "'a bus \<Rightarrow> bool" where
  "wf_sets s \<longleftrightarrow>
     (\<forall>n la. map_of (eventListeners s) n = Some la \<longrightarrow> la < next_ref s)
     \<and> (\<forall>la. (la < next_ref s \<longrightarrow> set_ok la s) \<and> (next_ref s \<le> la \<longrightarrow> sets s la = []))"

lemma wf_sets_frame:
  assumes "wf_sets s" "sets s' = sets s" "eventListeners s' = eventListeners s"
      and "next_ref s \<le> next_ref s'"
  shows "wf_sets s'"
  unfolding wf_sets_def
proof (intro conjI allI impI)
  fix n la assume "map_of (eventListeners s') n = Some la"
  then show "la < next_ref s'" using assms by (fastforce simp: wf_sets_def)
next
  fix la assume la: "la < next_ref s'"
  show "set_ok la s'"
  proof (cases "la < next_ref s")
    case True
    then have "set_ok la s" using assms(1) by (simp add: wf_sets_def)
    then show ?thesis using assms(2,4) la by (fastforce simp: set_ok_def)
  next
    case False
    then have "sets s la = []" using assms(1) by (simp add: wf_sets_def)
    then show ?thesis using assms(2) la by (simp add: set_ok_def)
  qed
next
  fix la assume "next_ref s' \<le> la"
  then show "sets s' la = []" using assms by (simp add: wf_sets_def)
qed

lemma map_of_filter_other:
  "map_of (filter (\<lambda>(k, r). k \<noteq> name) xs) n = (if n = name then None else map_of xs n)"
  by (induction xs) auto

lemma wf_sets_on:
  assumes "wf_sets s"
  shows "wf_sets (snd (on n l opt s))"
proof (cases "map_of (eventListeners s) n")
  case None
  let ?r = "next_ref s"
  let ?s' = "snd (on n l opt s)"
  have s': "eventListeners ?s' = eventListeners s @ [(n, ?r)]"
    "sets ?s' = (sets s)(?r := [Some \<lparr>w_id = Suc ?r, w_eventName = n, w_listener = l,
                                     w_options = opt, w_listeners = ?r\<rparr>])"
    "next_ref ?s' = Suc (Suc ?r)"
    using assms by (simp_all add: on_def Let_def None wf_sets_def)
  show ?thesis
    unfolding wf_sets_def
  proof (intro conjI allI impI)
    fix m la assume a: "map_of (eventListeners ?s') m = Some la"
    have "la = ?r \<or> map_of (eventListeners s) m = Some la"
      using a by (simp add: s'(1) map_add_def split: option.splits if_splits)
    moreover have "map_of (eventListeners s) m = Some la \<Longrightarrow> la < ?r"
      using assms by (simp add: wf_sets_def)
    ultimately show "la < next_ref ?s'"
      unfolding s'(3) by (elim disjE) simp_all
  next
    fix la assume la: "la < next_ref ?s'"
    show "set_ok la ?s'"
    proof (cases "la < ?r")
      case True
      then have "set_ok la s" using assms by (simp add: wf_sets_def)
      then show ?thesis using True by (fastforce simp: set_ok_def s')
    next
      case False
      then have "sets s la = []" using assms by (simp add: wf_sets_def)
      then show ?thesis using la by (simp add: set_ok_def s')
    qed
  next
    fix la assume "next_ref ?s' \<le> la"
    then show "sets ?s' la = []" using assms by (simp add: s' wf_sets_def)
  qed
next
  case (Some lb)
  let ?r = "next_ref s"
  let ?s' = "snd (on n l opt s)"
  have lb: "lb < ?r" using assms Some by (simp add: wf_sets_def)
  have s': "eventListeners ?s' = eventListeners s" "next_ref ?s' = Suc ?r"
    "\<And>la. la \<noteq> lb \<Longrightarrow> sets ?s' la = sets s la"
    by (simp_all add: on_def Let_def Some)
  show ?thesis
    unfolding wf_sets_def
  proof (intro conjI allI impI)
    fix m la assume "map_of (eventListeners ?s') m = Some la"
    then show "la < next_ref ?s'" using assms by (fastforce simp: s' wf_sets_def)
  next
    fix la assume la: "la < next_ref ?s'"
    show "set_ok la ?s'"
    proof (cases "la < ?r")
      case True
      then have "set_ok la s" using assms by (simp add: wf_sets_def)
      moreover have "grows la s ?s'" using True by (rule grows_on)
      ultimately show ?thesis by (rule set_ok_grows)
    next
      case False
      then have "sets s la = []" "la \<noteq> lb" using assms lb by (simp_all add: wf_sets_def)
      then show ?thesis using la by (simp add: set_ok_def s')
    qed
  next
    fix la assume a: "next_ref ?s' \<le> la"
    then have "la \<noteq> lb" using lb by (simp add: s')
    then show "sets ?s' la = []" using assms a by (simp add: s' wf_sets_def)
  qed
qed

lemma wf_sets_registrations:
  "wf_sets s \<Longrightarrow> wf_sets (fold (\<lambda>r st. snd (on (fst r) (fst (snd r)) (snd (snd r)) st)) rs s)"
  by (induction rs arbitrary: s) (simp_all add: wf_sets_on)

lemma wf_sets_delete:
  assumes "wf_sets s"
  shows "wf_sets (s\<lparr>sets := (sets s)(lb := set_delete i (sets s lb))\<rparr>)" (is "wf_sets ?s2")
  unfolding wf_sets_def
proof (intro conjI allI impI)
  fix n la assume "map_of (eventListeners ?s2) n = Some la"
  then show "la < next_ref ?s2" using assms by (simp add: wf_sets_def)
next
  fix la assume la: "la < next_ref ?s2"
  then have ok: "set_ok la s" using assms by (simp add: wf_sets_def)
  show "set_ok la ?s2"
  proof (cases "la = lb")
    case True
    then show ?thesis using set_ok_set_delete [OF ok, of i] by simp
  next
    case False
    then show ?thesis using ok by (simp add: set_ok_def)
  qed
next
  fix la assume "next_ref ?s2 \<le> la"
  then have "sets s la = []" using assms by (simp add: wf_sets_def)
  then show "sets ?s2 la = []" by (cases "la = lb") (simp_all add: set_delete_def)
qed

lemma wf_sets_forget:
  assumes "wf_sets s"
  shows "wf_sets (s\<lparr>eventListeners := filter (\<lambda>(k, r). k \<noteq> n) (eventListeners s)\<rparr>)"
  using assms by (simp add: wf_sets_def set_ok_def map_of_filter_other)

lemma wf_sets_unlisten:
  assumes "wf_sets s"
  shows "wf_sets (unlisten w s)"
proof -
  have 1: "wf_sets (clear_if_set (debounceTimer (vars s (w_id w))) s)"
    using assms by (rule wf_sets_frame) simp_all
  show ?thesis
    unfolding unlisten_def Let_def
    by (simp only: split: if_split) (intro conjI impI wf_sets_forget wf_sets_delete 1)
qed


text \<open>The channels leave the listeners alone: they only allocate.\<close>

definition untouched :: "'a bus \<Rightarrow> 'a bus \<Rightarrow> bool" where
  "untouched s s' \<longleftrightarrow>
     sets s' = sets s \<and> eventListeners s' = eventListeners s \<and> next_ref s \<le> next_ref s'"

lemma untouched_refl [simp]: "untouched s s"
  by (simp add: untouched_def)

lemma untouched_trans: "untouched s s1 \<Longrightarrow> untouched s1 s2 \<Longrightarrow> untouched s s2"
  by (simp add: untouched_def)

lemma wf_sets_untouched: "wf_sets s \<Longrightarrow> untouched s s' \<Longrightarrow> wf_sets s'"
  unfolding untouched_def by (elim conjE) (rule wf_sets_frame)

lemma untouched_init [simp]: "untouched s (init s)"
  by (simp add: untouched_def init_def)

lemma untouched_run_onInit [simp]: "untouched s (run_onInit n h v s)"
  by (simp add: untouched_def)

lemma untouched_run_onChange [simp]: "untouched s (run_onChange n h v v' s)"
  by (simp add: untouched_def)

lemma untouched_run_onClear [simp]: "untouched s (run_onClear n a s)"
  by (simp add: untouched_def)

lemma untouched_schedule_ttl [simp]: "untouched s (schedule_ttl n a t s)"
  by (simp add: untouched_def schedule_ttl_def split_beta)

lemma untouched_register_channel [simp]: "untouched s (register_channel n cfg v s)"
proof -
  let ?s2 = "s\<lparr>objects := (objects s)(next_ref s := new_channel n cfg v (now s)),
               channels := channels s @ [(n, next_ref s)], next_ref := Suc (next_ref s)\<rparr>"
  have "untouched s ?s2" by (simp add: untouched_def)
  moreover have "untouched ?s2 (schedule_ttl n (next_ref s) (ttl_of cfg) ?s2)" by simp
  ultimately have 3: "untouched s (schedule_ttl n (next_ref s) (ttl_of cfg) ?s2)"
    by (rule untouched_trans)
  then have "untouched s (run_onInit n h v (schedule_ttl n (next_ref s) (ttl_of cfg) ?s2))" for h
    by (rule untouched_trans) simp
  with 3 show ?thesis
    by (simp add: register_channel_def Let_def split: option.split)
qed

lemma untouched_getFromStorage [simp]: "untouched s (snd (getFromStorage k st s))"
  by (simp add: untouched_def)

lemma untouched_channel [simp]: "untouched s (channel n cfg s)"
proof -
  have "untouched s (register_channel n cfg v (snd (getFromStorage k st (init s))))" for v k st
    by (rule untouched_trans [OF _ untouched_register_channel])
       (rule untouched_trans [OF untouched_init untouched_getFromStorage])
  then show ?thesis
    by (simp add: channel_def Let_def split_beta)
qed

lemma untouched_executeOnChange [simp]: "untouched s (executeOnChange n a v v' s)"
  by (simp add: untouched_def executeOnChange_def Let_def split_beta split: option.split)

lemma untouched_changed [simp]: "untouched s (changed n a cfg v v' s)"
  by (simp add: changed_def split: option.split)

lemma untouched_first_value [simp]: "untouched s (first_value n a cfg v s)"
  by (simp add: untouched_def)

lemma untouched_persist [simp]: "untouched s (persist a v s)"
  by (simp add: untouched_def)

lemma untouched_notify [simp]: "untouched s (notify n cbs v s)"
  by (simp add: untouched_def)

lemma untouched_update_channel [simp]: "untouched s (update_channel a f s)"
  by (simp add: untouched_def)

lemma untouched_publish [simp]: "untouched s (publish n v s)"
proof (cases "map_of (channels s) n")
  case None
  then show ?thesis by (simp add: publish_def)
next
  case (Some a)
  have "untouched s (notify n cbs w (changed n a cfg w v' (first_value n a cfg w
          (persist a w (update_channel a f s)))))" for cbs w cfg v' f
    by (intro untouched_trans [OF _ untouched_notify] untouched_trans [OF _ untouched_changed]
          untouched_trans [OF _ untouched_first_value] untouched_trans [OF _ untouched_persist]
          untouched_update_channel)
  then show ?thesis
    by (simp add: publish_def Some Let_def untouched_def)
qed

lemma untouched_clear [simp]: "untouched s (clear n s)"
  by (simp add: untouched_def clear_def Let_def split: option.split)

lemma untouched_subscribe [simp]: "untouched s (subscribe n cb s)"
proof -
  have "untouched s (update_channel a f (channel n None s))" for a f
    by (rule untouched_trans [OF untouched_channel untouched_update_channel])
  then show ?thesis
    by (simp add: subscribe_def Let_def split: option.split)
qed

lemma untouched_unsubscribe [simp]: "untouched s (unsubscribe a n cb s)"
proof -
  have "untouched s (clear n (update_channel a f s))" for f
    by (rule untouched_trans [OF untouched_update_channel untouched_clear])
  then show ?thesis
    by (simp add: unsubscribe_def Let_def)
qed

text \<open>The listeners keep their sets well formed.\<close>

lemma wf_sets_cong:
  "sets s' = sets s \<Longrightarrow> eventListeners s' = eventListeners s \<Longrightarrow> next_ref s' = next_ref s
   \<Longrightarrow> wf_sets s' = wf_sets s"
  by (simp add: wf_sets_def set_ok_def)

lemma wf_sets_simps [simp]:
  "wf_sets (s\<lparr>vars := v\<rparr>) = wf_sets s"
  "wf_sets (s\<lparr>now := t\<rparr>) = wf_sets s"
  "wf_sets (s\<lparr>timers := ts\<rparr>) = wf_sets s"
  "wf_sets (s\<lparr>timers := ts, now := t\<rparr>) = wf_sets s"
  "wf_sets (console_error m s) = wf_sets s"
  "wf_sets (called e s) = wf_sets s"
  by (simp_all add: wf_sets_def set_ok_def)

lemma wf_sets_call_listener: "wf_sets s \<Longrightarrow> wf_sets (call_listener w d s)"
  unfolding call_listener_def
  by (rule wf_sets_registrations) simp

lemma wf_sets_executeListener: "wf_sets s \<Longrightarrow> wf_sets (executeListener w d s)"
  unfolding executeListener_def Let_def
  by (simp add: wf_sets_call_listener wf_sets_unlisten)

lemma wf_sets_wrappedListener: "wf_sets s \<Longrightarrow> wf_sets (wrappedListener w d s)"
proof -
  assume ok: "wf_sets s"
  have "wf_sets (snd (setTimeout k n (clear_if_set h s)))" for k n h
    using ok by (rule wf_sets_untouched) (simp add: untouched_def)
  then show ?thesis
    using ok unfolding wrappedListener_def Let_def split_beta
    by (simp add: wf_sets_executeListener)
qed

lemma wf_sets_forEach: "wf_sets s \<Longrightarrow> wf_sets (forEach la i d s)"
proof (induction la i d s rule: forEach.induct)
  case (1 la index d s)
  show ?case
    by (subst forEach.simps) (simp add: 1 wf_sets_wrappedListener split: option.split)
qed

lemma wf_sets_emit: "wf_sets s \<Longrightarrow> wf_sets (emit n d s)"
  by (simp add: emit_def wf_sets_forEach split: option.split)

lemma wf_sets_off: "wf_sets s \<Longrightarrow> wf_sets (off n s)"
  by (simp add: off_def wf_sets_forget)

lemma wf_sets_run_task: "wf_sets s \<Longrightarrow> wf_sets (run_task t s)"
  by (cases t) (simp_all add: run_task_def wf_sets_executeListener wf_sets_untouched)

lemma wf_sets_fire: "wf_sets s \<Longrightarrow> wf_sets (fire t s)"
  unfolding fire_def by (rule wf_sets_run_task) simp

lemma wf_sets_advance: "wf_sets s \<Longrightarrow> wf_sets (advance T s)"
proof (induction T s rule: advance.induct)
  case (1 T s)
  show ?case
    by (subst advance.simps) (simp add: 1 wf_sets_fire split: option.split)
qed


lemma wf_sets_perform: "wf_sets s \<Longrightarrow> wf_sets (perform c s)"
  by (cases c)
     (simp_all add: wf_sets_untouched wf_sets_emit wf_sets_on wf_sets_off wf_sets_unlisten
        wf_sets_advance once_def)

lemma wf_sets_fold_perform: "wf_sets s \<Longrightarrow> wf_sets (fold perform cs s)"
  by (induction cs arbitrary: s) (simp_all add: wf_sets_perform)

lemma wf_sets_loaded: "loaded s \<Longrightarrow> wf_sets s"
  by (simp add: loaded_def wf_sets_def)

lemma reachable_wf_sets: "reachable s \<Longrightarrow> wf_sets s"
  by (auto simp: reachable_def intro: wf_sets_fold_perform wf_sets_loaded)

lemma reachable_set_ok:
  "reachable s \<Longrightarrow> map_of (eventListeners s) name = Some la \<Longrightarrow> set_ok la s"
  by (drule reachable_wf_sets) (simp add: wf_sets_def)

lemma reachable_loaded: "loaded s \<Longrightarrow> reachable s"
  unfolding reachable_def by (intro exI [of _ s] exI [of _ "[]"]) simp

lemma reachable_perform: "reachable s \<Longrightarrow> reachable (perform c s)"
  unfolding reachable_def
proof (elim exE conjE)
  fix s0 cs assume "loaded s0" "s = fold perform cs s0"
  then show "\<exists>s0 cs. loaded s0 \<and> perform c s = fold perform cs s0"
    by (intro exI [of _ s0] exI [of _ "cs @ [c]"]) simp
qed

section \<open>Who is called during an emit\<close>

lemma trace_on [simp]: "trace (snd (on n l opt s)) = trace s"
  by (simp add: on_def Let_def split: option.splits)

lemma trace_registrations [simp]:
  "trace (fold (\<lambda>r st. snd (on (fst r) (fst (snd r)) (snd (snd r)) st)) rs s) = trace s"
  by (induction rs arbitrary: s) simp_all

lemma trace_call_listener [simp]:
  "trace (call_listener w d s) = trace s @ [ListenerCalled (w_id w) (l_id (w_listener w)) d]"
  by (simp add: call_listener_def called_def)

lemma trace_unlisten [simp]: "trace (unlisten w s) = trace s"
  by (simp add: unlisten_def Let_def)

lemma trace_executeListener [simp]:
  "trace (executeListener w d s) = trace s @ [ListenerCalled (w_id w) (l_id (w_listener w)) d]"
  by (simp add: executeListener_def Let_def)

lemma trace_wrappedListener: "\<exists>zs. trace (wrappedListener w d s) = trace s @ zs"
  by (simp add: wrappedListener_def Let_def split_beta)

lemma trace_forEach: "\<exists>zs. trace (forEach la i d s) = trace s @ zs"
proof (induction la i d s rule: forEach.induct)
  case (1 la i d s)
  show ?case
  proof (cases "i < length (sets s la)")
    case False
    then show ?thesis by (subst forEach.simps) simp
  next
    case True
    show ?thesis
    proof (cases "sets s la ! i")
      case None
      then show ?thesis
        using "1.IH"(1) [OF True None] True by (subst forEach.simps) simp
    next
      case (Some e)
      obtain zs where "trace (wrappedListener e d s) = trace s @ zs"
        using trace_wrappedListener by blast
      moreover obtain ys where
        "trace (forEach la (Suc i) d (wrappedListener e d s)) = trace (wrappedListener e d s) @ ys"
        using "1.IH"(2) [OF True Some] by blast
      ultimately have "trace (forEach la (Suc i) d (wrappedListener e d s)) = trace s @ (zs @ ys)"
        by simp
      then show ?thesis
        using True Some by (subst forEach.simps) (simp del: append_assoc)
    qed
  qed
qed

lemma set_ok_entry:
  assumes "set_ok la s" "i < length (sets s la)" "sets s la ! i = Some e"
  shows "w_listeners e = la" "w_id e < next_ref s"
  using assms nth_live [of i "sets s la" e] by (auto simp: set_ok_def)

lemma set_ok_other:
  assumes "set_ok la s" "i < length (sets s la)" "sets s la ! i = Some e"
      and "j < length (sets s la)" "sets s la ! j = Some w" "i \<noteq> j"
  shows "w_id e \<noteq> w_id w"
  using assms distinct_ids_nth [of "sets s la" i e j w] by (simp add: set_ok_def)

lemma forEach_keeps_after:
  assumes "set_ok la s" "j < length (sets s la)" "sets s la ! j = Some w" "j < i"
  shows "keeps la name j w s (forEach la i d s)"
  using assms
proof (induction la i d s rule: forEach.induct)
  case (1 la i d s)
  show ?case
  proof (cases "i < length (sets s la)")
    case False
    then show ?thesis
      using "1.prems" by (subst forEach.simps) (simp add: keeps_refl)
  next
    case True
    show ?thesis
    proof (cases "sets s la ! i")
      case None
      have "keeps la name j w s (forEach la (Suc i) d s)"
        using "1.IH"(1) [OF True None] "1.prems" by simp
      then show ?thesis using True None by (subst forEach.simps) simp
    next
      case (Some e)
      let ?s' = "wrappedListener e d s"
      have e: "w_listeners e = la" "w_id e \<noteq> w_id w"
        using set_ok_entry(1) [OF "1.prems"(1) True Some]
          set_ok_other [OF "1.prems"(1) True Some "1.prems"(2,3)] "1.prems"(4) by simp_all
      have k: "keeps la name j w s ?s'"
        using "1.prems"(1-3) e by (rule keeps_wrappedListener)
      have "keeps la name j w ?s' (forEach la (Suc i) d ?s')"
        using "1.IH"(2) [OF True Some] keepsD [OF k] "1.prems"(4) by simp
      with k have "keeps la name j w s (forEach la (Suc i) d ?s')" by (rule keeps_trans)
      then show ?thesis using True Some by (subst forEach.simps) simp
    qed
  qed
qed

text \<open>
  The wrapper goes straight to the caller's listener: it is not a once wrapper that has
  fired, it has no filter that rejects the data, and neither debounce nor throttle.
\<close>

definition direct :: "'a WrappedListener \<Rightarrow> 'a jsval \<Rightarrow> 'a bus \<Rightarrow> bool" where
  "direct w d s \<longleftrightarrow>
     \<not> (is_once (w_options w) \<and> hasExecuted (vars s (w_id w)))
     \<and> \<not> rejects (w_options w) d
     \<and> debounce_of (w_options w) = 0 \<and> throttle_of (w_options w) = 0"

lemma wrappedListener_direct:
  "direct w d s \<Longrightarrow> wrappedListener w d s = executeListener w (transformed (w_options w) d) s"
  by (auto simp: direct_def wrappedListener_def Let_def)

lemma direct_keeps: "keeps la name j w s s' \<Longrightarrow> direct w d s \<Longrightarrow> direct w d s'"
  by (simp add: keeps_def direct_def)

lemma forEach_calls:
  assumes "set_ok la s" "j < length (sets s la)" "sets s la ! j = Some w" "i \<le> j"
      and "direct w d s"
  shows "\<exists>xs ys. trace (forEach la i d s) =
           trace s @ xs @ [ListenerCalled (w_id w) (l_id (w_listener w)) (transformed (w_options w) d)] @ ys"
  using assms
proof (induction la i d s rule: forEach.induct)
  case (1 la i d s)
  let ?ev = "ListenerCalled (w_id w) (l_id (w_listener w)) (transformed (w_options w) d)"
  have len: "i < length (sets s la)" using "1.prems"(2,4) by simp
  show ?case
  proof (cases "i = j")
    case True
    let ?s' = "wrappedListener w d s"
    have "trace ?s' = trace s @ [?ev]"
      using "1.prems"(5) by (simp add: wrappedListener_direct)
    moreover obtain zs where "trace (forEach la (Suc i) d ?s') = trace ?s' @ zs"
      using trace_forEach by blast
    ultimately have "trace (forEach la (Suc i) d ?s') = trace s @ [] @ [?ev] @ zs" by simp
    then have "\<exists>xs ys. trace (forEach la (Suc i) d ?s') = trace s @ xs @ [?ev] @ ys" by blast
    then show ?thesis
      using len "1.prems"(3) True by (subst forEach.simps) simp
  next
    case False
    then have lt: "Suc i \<le> j" using "1.prems"(4) by simp
    show ?thesis
    proof (cases "sets s la ! i")
      case None
      have "\<exists>xs ys. trace (forEach la (Suc i) d s) = trace s @ xs @ [?ev] @ ys"
        using "1.IH"(1) [OF len None] "1.prems" lt by simp
      then show ?thesis using len None by (subst forEach.simps) simp
    next
      case (Some e)
      let ?s' = "wrappedListener e d s"
      have e: "w_listeners e = la" "w_id e \<noteq> w_id w"
        using set_ok_entry(1) [OF "1.prems"(1) len Some]
          set_ok_other [OF "1.prems"(1) len Some "1.prems"(2,3)] False by simp_all
      have k: "keeps la [] j w s ?s'"
        using "1.prems"(1-3) e by (rule keeps_wrappedListener)
      obtain zs where zs: "trace ?s' = trace s @ zs" using k by (auto simp: keeps_def)
      obtain xs ys where "trace (forEach la (Suc i) d ?s') = trace ?s' @ xs @ [?ev] @ ys"
        using "1.IH"(2) [OF len Some] keepsD [OF k] lt direct_keeps [OF k "1.prems"(5)] by blast
      then have "trace (forEach la (Suc i) d ?s') = trace s @ (zs @ xs) @ [?ev] @ ys"
        using zs by simp
      then have "\<exists>xs ys. trace (forEach la (Suc i) d ?s') = trace s @ xs @ [?ev] @ ys" by blast
      then show ?thesis using len Some by (subst forEach.simps) simp
    qed
  qed
qed


lemma forEach_keeps_throwing:
  assumes "set_ok la s" "j < length (sets s la)" "sets s la ! j = Some w" "i \<le> j"
      and "direct w d s"
      and "l_run (w_listener w) (transformed (w_options w) d) = Throws"
  shows "keeps la name j w s (forEach la i d s)"
  using assms
proof (induction la i d s rule: forEach.induct)
  case (1 la i d s)
  have len: "i < length (sets s la)" using "1.prems"(2,4) by simp
  show ?case
  proof (cases "i = j")
    case True
    let ?d = "transformed (w_options w) d"
    let ?s1 = "call_listener w ?d s"
    let ?s' = "console_error (''Error in event listener for \"'' @ w_eventName w @ ''\":'') ?s1"
    have w: "wrappedListener w d s = ?s'"
      using "1.prems"(5,6) by (simp add: wrappedListener_direct executeListener_def Let_def)
    have k1: "keeps la name j w s ?s1" using "1.prems"(1-3) by (rule keeps_call_listener)
    have "keeps la name j w ?s1 ?s'"
      using keepsD [OF k1] by (intro keeps_same_sets) simp_all
    with k1 have k: "keeps la name j w s ?s'" by (rule keeps_trans)
    have "keeps la name j w ?s' (forEach la (Suc j) d ?s')"
      using keepsD [OF k] by (intro forEach_keeps_after) simp_all
    with k have "keeps la name j w s (forEach la (Suc j) d ?s')" by (rule keeps_trans)
    then show ?thesis
      using len "1.prems"(3) True w by (subst forEach.simps) simp
  next
    case False
    then have lt: "Suc i \<le> j" using "1.prems"(4) by simp
    show ?thesis
    proof (cases "sets s la ! i")
      case None
      have "keeps la name j w s (forEach la (Suc i) d s)"
        using "1.IH"(1) [OF len None] "1.prems" lt by simp
      then show ?thesis using len None by (subst forEach.simps) simp
    next
      case (Some e)
      let ?s' = "wrappedListener e d s"
      have e: "w_listeners e = la" "w_id e \<noteq> w_id w"
        using set_ok_entry(1) [OF "1.prems"(1) len Some]
          set_ok_other [OF "1.prems"(1) len Some "1.prems"(2,3)] False by simp_all
      have k: "keeps la name j w s ?s'"
        using "1.prems"(1-3) e by (rule keeps_wrappedListener)
      have "keeps la name j w ?s' (forEach la (Suc i) d ?s')"
        using "1.IH"(2) [OF len Some] keepsD [OF k] lt direct_keeps [OF k "1.prems"(5)] "1.prems"(6)
        by blast
      with k have "keeps la name j w s (forEach la (Suc i) d ?s')" by (rule keeps_trans)
      then show ?thesis using len Some by (subst forEach.simps) simp
    qed
  qed
qed

lemma on_existing_topic:
  assumes "map_of (eventListeners s) n = Some la"
  shows "sets (snd (on n l opt s)) la =
           sets s la @ [Some \<lparr>w_id = next_ref s, w_eventName = n, w_listener = l,
                               w_options = opt, w_listeners = la\<rparr>]"
  using assms by (simp add: on_def Let_def)

lemma registrations_add:
  assumes "map_of (eventListeners s) name = Some la" "la < next_ref s" "(name, l', opt) \<in> set rs"
  shows "\<exists>k x. length (sets s la) \<le> k
           \<and> k < length (sets (fold (\<lambda>r st. snd (on (fst r) (fst (snd r)) (snd (snd r)) st)) rs s) la)
           \<and> sets (fold (\<lambda>r st. snd (on (fst r) (fst (snd r)) (snd (snd r)) st)) rs s) la ! k = Some x
           \<and> w_listener x = l' \<and> w_options x = opt \<and> next_ref s \<le> w_id x"
  using assms
proof (induction rs arbitrary: s)
  case Nil
  then show ?case by simp
next
  case (Cons r rs)
  let ?f = "\<lambda>r st. snd (on (fst r) (fst (snd r)) (snd (snd r)) st)"
  let ?s1 = "?f r s"
  have g1: "grows la s ?s1" using Cons.prems(2) by (rule grows_on)
  then have n1: "la < next_ref ?s1" "next_ref s \<le> next_ref ?s1"
            and t1: "map_of (eventListeners ?s1) name = Some la"
            and l1: "length (sets s la) \<le> length (sets ?s1 la)"
    using Cons.prems(1,2) by (auto simp: grows_def)
  have g2: "grows la ?s1 (fold ?f rs ?s1)" using n1(1) by (rule grows_registrations)
  show ?case
  proof (cases "r = (name, l', opt)")
    case True
    let ?x = "\<lparr>w_id = next_ref s, w_eventName = name, w_listener = l',
               w_options = opt, w_listeners = la\<rparr>"
    have "sets ?s1 la = sets s la @ [Some ?x]"
      using on_existing_topic [OF Cons.prems(1)] True by simp
    moreover obtain added where "sets (fold ?f rs ?s1) la = sets ?s1 la @ map Some added"
      using g2 by (auto simp: grows_def)
    ultimately have "sets (fold ?f rs ?s1) la = sets s la @ Some ?x # map Some added" by simp
    then have "length (sets s la) < length (sets (fold ?f rs ?s1) la)"
      "sets (fold ?f rs ?s1) la ! length (sets s la) = Some ?x"
      by simp_all
    then show ?thesis
      by (intro exI [of _ "length (sets s la)"] exI [of _ ?x]) simp
  next
    case False
    then have "(name, l', opt) \<in> set rs" using Cons.prems(3) by simp
    from Cons.IH [OF t1 n1(1) this] obtain k x where
      "length (sets ?s1 la) \<le> k" "k < length (sets (fold ?f rs ?s1) la)"
      "sets (fold ?f rs ?s1) la ! k = Some x" "w_listener x = l'" "w_options x = opt"
      "next_ref ?s1 \<le> w_id x"
      by blast
    then show ?thesis
      using l1 n1(2) by (intro exI [of _ k] exI [of _ x]) simp
  qed
qed

lemma direct_plain: "w_options w = None \<Longrightarrow> direct w d s"
  by (simp add: direct_def is_once_def rejects_def debounce_of_def throttle_of_def)

lemma forEach_calls_registered:
  assumes "set_ok la s" "map_of (eventListeners s) name = Some la"
      and "j < length (sets s la)" "sets s la ! j = Some w" "i \<le> j"
      and plain: "w_options w = None"
      and reg: "(name, l', None) \<in> set (l_registers (w_listener w))"
  shows "\<exists>wid xs ys. next_ref s \<le> wid
           \<and> trace (forEach la i d s) = trace s @ xs @ [ListenerCalled wid (l_id l') d] @ ys"
  using assms(1-5)
proof (induction la i d s rule: forEach.induct)
  case (1 la i d s)
  have len: "i < length (sets s la)" using "1.prems"(3,5) by simp
  show ?case
  proof (cases "i = j")
    case True
    let ?ev = "ListenerCalled (w_id w) (l_id (w_listener w)) d"
    let ?s0 = "called ?ev s"
    let ?s1 = "call_listener w d s"
    let ?s' = "wrappedListener w d s"
    have w: "?s' = executeListener w d s"
      using direct_plain [OF plain] by (simp add: wrappedListener_direct transformed_def plain)
    have same: "sets ?s' = sets ?s1" "next_ref ?s' = next_ref ?s1"
      by (simp_all add: w executeListener_def Let_def is_once_def plain)
    have n0: "la < next_ref ?s0" using "1.prems"(1) by (simp add: set_ok_def)
    have ok0: "set_ok la ?s0" using "1.prems"(1) by (simp add: set_ok_def)
    have "grows la ?s0 ?s1" unfolding call_listener_def using n0 by (rule grows_registrations)
    then have "set_ok la ?s1" using ok0 set_ok_grows by blast
    then have ok': "set_ok la ?s'" using same by (simp add: set_ok_def)
    have "\<exists>k x. length (sets ?s0 la) \<le> k \<and> k < length (sets ?s1 la)
             \<and> sets ?s1 la ! k = Some x \<and> w_listener x = l' \<and> w_options x = None
             \<and> next_ref ?s0 \<le> w_id x"
      unfolding call_listener_def
      using "1.prems"(2) n0 reg by (intro registrations_add) simp_all
    then obtain k x where kx: "length (sets s la) \<le> k" "k < length (sets ?s' la)"
        "sets ?s' la ! k = Some x" "w_listener x = l'" "w_options x = None" "next_ref s \<le> w_id x"
      using same by auto
    have "Suc j \<le> k" using kx(1) "1.prems"(3) by simp
    then obtain xs ys where
      "trace (forEach la (Suc j) d ?s') =
         trace ?s' @ xs @ [ListenerCalled (w_id x) (l_id (w_listener x)) (transformed (w_options x) d)] @ ys"
      using forEach_calls [OF ok' kx(2,3) _ direct_plain [OF kx(5)], of "Suc j" d] by blast
    then have "trace (forEach la (Suc j) d ?s') =
         trace s @ (?ev # xs) @ [ListenerCalled (w_id x) (l_id l') d] @ ys"
      by (simp add: w kx(4,5) transformed_def)
    then have "\<exists>wid xs ys. next_ref s \<le> wid
           \<and> trace (forEach la (Suc j) d ?s') = trace s @ xs @ [ListenerCalled wid (l_id l') d] @ ys"
      using kx(6) by blast
    then show ?thesis
      using len "1.prems"(4) True by (subst forEach.simps) simp
  next
    case False
    then have lt: "Suc i \<le> j" using "1.prems"(5) by simp
    show ?thesis
    proof (cases "sets s la ! i")
      case None
      have "\<exists>wid xs ys. next_ref s \<le> wid
           \<and> trace (forEach la (Suc i) d s) = trace s @ xs @ [ListenerCalled wid (l_id l') d] @ ys"
        using "1.IH"(1) [OF len None] "1.prems" lt by simp
      then show ?thesis using len None by (subst forEach.simps) simp
    next
      case (Some e)
      let ?s' = "wrappedListener e d s"
      have e: "w_listeners e = la" "w_id e \<noteq> w_id w"
        using set_ok_entry(1) [OF "1.prems"(1) len Some]
          set_ok_other [OF "1.prems"(1) len Some "1.prems"(3,4)] False by simp_all
      have k: "keeps la name j w s ?s'"
        using "1.prems"(1,3,4) e by (rule keeps_wrappedListener)
      then obtain zs where zs: "trace ?s' = trace s @ zs" "next_ref s \<le> next_ref ?s'"
        "map_of (eventListeners ?s') name = Some la"
        using "1.prems"(2) by (auto simp: keeps_def)
      obtain wid xs ys where "next_ref ?s' \<le> wid"
        "trace (forEach la (Suc i) d ?s') = trace ?s' @ xs @ [ListenerCalled wid (l_id l') d] @ ys"
        using "1.IH"(2) [OF len Some] keepsD [OF k] zs(3) lt by blast
      then have "next_ref s \<le> wid"
        "trace (forEach la (Suc i) d ?s') = trace s @ (zs @ xs) @ [ListenerCalled wid (l_id l') d] @ ys"
        using zs(1,2) by simp_all
      then have "\<exists>wid xs ys. next_ref s \<le> wid
           \<and> trace (forEach la (Suc i) d ?s') = trace s @ xs @ [ListenerCalled wid (l_id l') d] @ ys"
        by blast
      then show ?thesis using len Some by (subst forEach.simps) simp
    qed
  qed
qed


lemma emit_forEach:
  assumes "map_of (eventListeners s) name = Some la"
      and "j < length (sets s la)" "sets s la ! j = Some w"
  shows "emit name d s = forEach la 0 d s"
proof -
  have "w \<in> set (live (sets s la))" using assms(2,3) by (rule nth_live)
  then have "set_size (sets s la) \<noteq> 0" by (auto simp: set_size_live)
  then show ?thesis using assms(1) by (simp add: emit_def)
qed

text \<open>
  C7, amended. emit walks the listener set itself, in insertion order, and the set may grow
  during the walk. In any reachable state, take in the listener set of a topic a listener
  with no options whose body registers, with no options, a listener \<open>l'\<close> on the same
  topic. Every wrapper in the set when the emit begins has an identity below \<open>next_ref s\<close>;
  the emit calls \<open>l'\<close> through a wrapper whose identity is not below it: a wrapper that
  was not in the set when the emit began, built and appended during this emit.
\<close>

theorem emit_calls_listener_registered_meanwhile:
  assumes reach: "reachable s"
      and topic: "map_of (eventListeners s) name = Some la"
      and tgt: "j < length (sets s la)" "sets s la ! j = Some w"
      and plain: "w_options w = None"
      and reg: "(name, l', None) \<in> set (l_registers (w_listener w))"
  shows "(\<forall>x \<in> set (live (sets s la)). w_id x < next_ref s)
       \<and> (\<exists>wid xs ys. next_ref s \<le> wid
             \<and> trace (emit name d s) = trace s @ xs @ [ListenerCalled wid (l_id l') d] @ ys)"
proof
  have ok: "set_ok la s" using reach topic by (rule reachable_set_ok)
  show "\<forall>x \<in> set (live (sets s la)). w_id x < next_ref s"
    using ok by (simp add: set_ok_def)
  show "\<exists>wid xs ys. next_ref s \<le> wid
             \<and> trace (emit name d s) = trace s @ xs @ [ListenerCalled wid (l_id l') d] @ ys"
    using forEach_calls_registered [OF ok topic tgt _ plain reg, of 0 d]
    by (simp add: emit_forEach [OF topic tgt])
qed

text \<open>
  In the example \<open>greeter\<close> has been registered on the topic from the state at load time,
  and registers \<open>hello\<close> when it runs.
\<close>

theorem emit_calls_listener_registered_meanwhile_witness:
  "reachable ping_bus
   \<and> map_of (eventListeners ping_bus) ''ping'' = Some 0
   \<and> sets ping_bus 0 = [Some \<lparr>w_id = 1, w_eventName = ''ping'', w_listener = greeter,
                                 w_options = None, w_listeners = 0\<rparr>]
   \<and> next_ref ping_bus = 2
   \<and> (\<exists>wid xs ys. 2 \<le> wid
         \<and> trace (emit ''ping'' (Val ''y'') ping_bus) = xs @ [ListenerCalled wid 2 (Val ''y'')] @ ys)"
proof -
  have e: "eventListeners ping_bus = [(''ping'', 0)]"
          "sets ping_bus 0 = [Some \<lparr>w_id = 1, w_eventName = ''ping'', w_listener = greeter,
                                    w_options = None, w_listeners = 0\<rparr>]"
          "next_ref ping_bus = 2" "trace ping_bus = []"
    by (simp_all add: ping_bus_def on_def Let_def initial_bus_def)
  have "loaded initial_bus" by (simp add: loaded_def initial_bus_def)
  then have "reachable (perform (Call_on ''ping'' greeter None) initial_bus)"
    by (intro reachable_perform reachable_loaded)
  then have r: "reachable ping_bus" by (simp add: ping_bus_def)
  have "\<exists>wid xs ys. next_ref ping_bus \<le> wid
         \<and> trace (emit ''ping'' (Val ''y'') ping_bus) =
             trace ping_bus @ xs @ [ListenerCalled wid (l_id hello) (Val ''y'')] @ ys"
    using emit_calls_listener_registered_meanwhile
            [of ping_bus "''ping''" 0 0
                "\<lparr>w_id = 1, w_eventName = ''ping'', w_listener = greeter,
                  w_options = None, w_listeners = 0\<rparr>" hello "Val ''y''"] r
    by (simp add: e greeter_def)
  then show ?thesis using r by (simp add: e hello_def)
qed

lemma once_registered:
  assumes ok: "\<forall>la. map_of (eventListeners s) name = Some la \<longrightarrow> set_ok la s"
  shows "\<exists>j. map_of (eventListeners (snd (once name fn s))) name = Some (w_listeners (fst (once name fn s)))
           \<and> set_ok (w_listeners (fst (once name fn s))) (snd (once name fn s))
           \<and> j < length (sets (snd (once name fn s)) (w_listeners (fst (once name fn s))))
           \<and> sets (snd (once name fn s)) (w_listeners (fst (once name fn s))) ! j = Some (fst (once name fn s))"
    and "\<not> hasExecuted (vars (snd (once name fn s)) (w_id (fst (once name fn s))))"
    and "w_options (fst (once name fn s)) = Some only_once"
    and "w_listener (fst (once name fn s)) = fn"
    and "trace (snd (once name fn s)) = trace s"
proof -
  show "\<not> hasExecuted (vars (snd (once name fn s)) (w_id (fst (once name fn s))))"
    by (simp add: once_def on_def Let_def split: option.splits)
  show "w_options (fst (once name fn s)) = Some only_once"
    by (simp add: once_def on_def Let_def split: option.splits)
  show "w_listener (fst (once name fn s)) = fn"
    by (simp add: once_def on_def Let_def split: option.splits)
  show "trace (snd (once name fn s)) = trace s"
    by (simp add: once_def)
  show "\<exists>j. map_of (eventListeners (snd (once name fn s))) name = Some (w_listeners (fst (once name fn s)))
           \<and> set_ok (w_listeners (fst (once name fn s))) (snd (once name fn s))
           \<and> j < length (sets (snd (once name fn s)) (w_listeners (fst (once name fn s))))
           \<and> sets (snd (once name fn s)) (w_listeners (fst (once name fn s))) ! j = Some (fst (once name fn s))"
  proof (cases "map_of (eventListeners s) name")
    case None
    show ?thesis
      by (rule exI [of _ 0]) (simp add: once_def on_def Let_def None map_add_def set_ok_def)
  next
    case (Some la)
    then have ok': "set_ok la s" using ok by simp
    then have "la < next_ref s" by (simp add: set_ok_def)
    then have "grows la s (snd (on name fn (Some only_once) s))" by (rule grows_on)
    then have "set_ok la (snd (on name fn (Some only_once) s))" using ok' set_ok_grows by blast
    then show ?thesis
      by (intro exI [of _ "length (sets s la)"]) (simp add: once_def on_def Let_def Some)
  qed
qed

lemma direct_once:
  "w_options w = Some only_once \<Longrightarrow> \<not> hasExecuted (vars s (w_id w)) \<Longrightarrow> direct w d s"
  by (simp add: direct_def rejects_def debounce_of_def throttle_of_def only_once_def)

lemma transformed_once [simp]: "transformed (Some only_once) d = d"
  by (simp add: transformed_def only_once_def)

lemma once_throws_anywhere:
  assumes ok: "\<forall>la. map_of (eventListeners s) name = Some la \<longrightarrow> set_ok la s"
      and throws: "l_run fn x1 = Throws"
  shows "(\<exists>xs ys. trace (emit name x1 (snd (once name fn s))) =
            trace s @ xs @ [ListenerCalled (w_id (fst (once name fn s))) (l_id fn) x1] @ ys)
       \<and> \<not> hasExecuted (vars (emit name x1 (snd (once name fn s))) (w_id (fst (once name fn s))))
       \<and> Some (fst (once name fn s))
            \<in> set (sets (emit name x1 (snd (once name fn s))) (w_listeners (fst (once name fn s))))
       \<and> map_of (eventListeners (emit name x1 (snd (once name fn s)))) name =
            Some (w_listeners (fst (once name fn s)))
       \<and> (\<exists>xs ys. trace (emit name x2 (emit name x1 (snd (once name fn s)))) =
            trace (emit name x1 (snd (once name fn s))) @ xs @
              [ListenerCalled (w_id (fst (once name fn s))) (l_id fn) x2] @ ys)"
proof -
  let ?w = "fst (once name fn s)"
  let ?s1 = "snd (once name fn s)"
  let ?la = "w_listeners ?w"
  note r = once_registered [OF ok, of fn]
  from r(1) obtain j where j:
    "map_of (eventListeners ?s1) name = Some ?la" "set_ok ?la ?s1"
    "j < length (sets ?s1 ?la)" "sets ?s1 ?la ! j = Some ?w"
    by blast
  have d1: "direct ?w x1 ?s1" using r(2,3) by (simp add: direct_once)
  let ?s2 = "emit name x1 ?s1"
  have e1: "?s2 = forEach ?la 0 x1 ?s1" using j(1,3,4) by (rule emit_forEach)
  have c1: "\<exists>xs ys. trace ?s2 = trace s @ xs @ [ListenerCalled (w_id ?w) (l_id fn) x1] @ ys"
    using forEach_calls [OF j(2,3,4) _ d1, of 0] by (simp add: e1 r(3,4,5))
  have k: "keeps ?la name j ?w ?s1 ?s2"
    unfolding e1
    by (rule forEach_keeps_throwing [OF j(2,3,4) _ d1]) (simp_all add: r(3,4) throws)
  then have k': "set_ok ?la ?s2" "j < length (sets ?s2 ?la)" "sets ?s2 ?la ! j = Some ?w"
    "map_of (eventListeners ?s2) name = Some ?la" "vars ?s2 (w_id ?w) = vars ?s1 (w_id ?w)"
    using j(1) by (simp_all add: keeps_def)
  have h2: "\<not> hasExecuted (vars ?s2 (w_id ?w))" using r(2) k'(5) by simp
  have m2: "Some ?w \<in> set (sets ?s2 ?la)" using k'(2,3) nth_mem by fastforce
  have d2: "direct ?w x2 ?s2" using r(3) h2 by (simp add: direct_once)
  have e2: "emit name x2 ?s2 = forEach ?la 0 x2 ?s2" using k'(4,2,3) by (rule emit_forEach)
  have c2: "\<exists>xs ys. trace (emit name x2 ?s2) =
              trace ?s2 @ xs @ [ListenerCalled (w_id ?w) (l_id fn) x2] @ ys"
    using forEach_calls [OF k'(1,2,3) _ d2, of 0] by (simp add: e2 r(3,4))
  show ?thesis using c1 h2 m2 k'(4) c2 by blast
qed

text \<open>
  C9. A listener is registered with once, on any topic, in any reachable state. If the
  listener throws on the first payload, the first emit calls it, the
  wrapper is not marked as having fired, it stays in the listener set and the topic stays
  registered, and the next emit calls the same listener again through the same wrapper.
  The guard works for a listener that returns normally: on a topic with no other listener,
  a once listener with an empty body that returns on the first payload is marked and
  removed, the emptied topic is deleted, and the next emit calls nothing.
\<close>

theorem once_listener_that_throws:
  assumes reach: "reachable s"
  shows "(l_run fn x1 = Throws \<longrightarrow>
           (\<exists>xs ys. trace (emit name x1 (snd (once name fn s))) =
              trace s @ xs @ [ListenerCalled (w_id (fst (once name fn s))) (l_id fn) x1] @ ys)
         \<and> \<not> hasExecuted (vars (emit name x1 (snd (once name fn s))) (w_id (fst (once name fn s))))
         \<and> Some (fst (once name fn s))
              \<in> set (sets (emit name x1 (snd (once name fn s))) (w_listeners (fst (once name fn s))))
         \<and> map_of (eventListeners (emit name x1 (snd (once name fn s)))) name =
              Some (w_listeners (fst (once name fn s)))
         \<and> (\<exists>xs ys. trace (emit name x2 (emit name x1 (snd (once name fn s)))) =
              trace (emit name x1 (snd (once name fn s))) @ xs @
                [ListenerCalled (w_id (fst (once name fn s))) (l_id fn) x2] @ ys))
       \<and> (l_run fn x1 = Returns \<and> map_of (eventListeners s) name = None \<and> l_registers fn = [] \<longrightarrow>
            trace (emit name x1 (snd (once name fn s))) =
              trace s @ [ListenerCalled (Suc (next_ref s)) (l_id fn) x1]
          \<and> hasExecuted (vars (emit name x1 (snd (once name fn s))) (Suc (next_ref s)))
          \<and> sets (emit name x1 (snd (once name fn s))) (next_ref s) = [None]
          \<and> map_of (eventListeners (emit name x1 (snd (once name fn s)))) name = None
          \<and> trace (emit name x2 (emit name x1 (snd (once name fn s)))) =
              trace s @ [ListenerCalled (Suc (next_ref s)) (l_id fn) x1])"
proof (intro conjI impI)
  have ok: "\<forall>la. map_of (eventListeners s) name = Some la \<longrightarrow> set_ok la s"
    using reach by (simp add: reachable_set_ok)
  assume "l_run fn x1 = Throws"
  note t = once_throws_anywhere [OF ok this, of x2]
  show "\<exists>xs ys. trace (emit name x1 (snd (once name fn s))) =
              trace s @ xs @ [ListenerCalled (w_id (fst (once name fn s))) (l_id fn) x1] @ ys"
    using t by blast
  show "\<not> hasExecuted (vars (emit name x1 (snd (once name fn s))) (w_id (fst (once name fn s))))"
    using t by blast
  show "Some (fst (once name fn s))
          \<in> set (sets (emit name x1 (snd (once name fn s))) (w_listeners (fst (once name fn s))))"
    using t by blast
  show "map_of (eventListeners (emit name x1 (snd (once name fn s)))) name =
          Some (w_listeners (fst (once name fn s)))"
    using t by blast
  show "\<exists>xs ys. trace (emit name x2 (emit name x1 (snd (once name fn s)))) =
              trace (emit name x1 (snd (once name fn s))) @ xs @
                [ListenerCalled (w_id (fst (once name fn s))) (l_id fn) x2] @ ys"
    using t by blast
next
  assume a: "l_run fn x1 = Returns \<and> map_of (eventListeners s) name = None \<and> l_registers fn = []"
  then have f: "map_of (eventListeners s) name = None" and b: "l_registers fn = []"
    and r: "l_run fn x1 = Returns" by simp_all
  note n = once_on_new_topic [OF f b, of x1 x2]
  show "trace (emit name x1 (snd (once name fn s))) =
              trace s @ [ListenerCalled (Suc (next_ref s)) (l_id fn) x1]"
    using n r by blast
  show "hasExecuted (vars (emit name x1 (snd (once name fn s))) (Suc (next_ref s)))"
    using n r by blast
  show "sets (emit name x1 (snd (once name fn s))) (next_ref s) = [None]"
    using n r by blast
  show "map_of (eventListeners (emit name x1 (snd (once name fn s)))) name = None"
    using n r by blast
  show "trace (emit name x2 (emit name x1 (snd (once name fn s)))) =
              trace s @ [ListenerCalled (Suc (next_ref s)) (l_id fn) x1]"
    using n r by blast
qed

text \<open>
  In the example the topic already has a listener, which registers one more during each
  emit; \<open>fragile\<close> throws on \<open>boom\<close> only.
\<close>

theorem once_listener_that_throws_witness:
  "reachable ping_bus
   \<and> w_id (fst (once ''ping'' fragile ping_bus)) = 2
   \<and> (\<exists>xs ys. trace (emit ''ping'' (Val ''boom'') (snd (once ''ping'' fragile ping_bus))) =
         xs @ [ListenerCalled 2 7 (Val ''boom'')] @ ys)
   \<and> \<not> hasExecuted (vars (emit ''ping'' (Val ''boom'') (snd (once ''ping'' fragile ping_bus))) 2)
   \<and> (\<exists>xs ys. trace (emit ''ping'' (Val ''ok'')
                   (emit ''ping'' (Val ''boom'') (snd (once ''ping'' fragile ping_bus)))) =
         trace (emit ''ping'' (Val ''boom'') (snd (once ''ping'' fragile ping_bus))) @
           xs @ [ListenerCalled 2 7 (Val ''ok'')] @ ys)
   \<and> trace (emit ''job'' (Val ''again'')
        (emit ''job'' (Val ''ok'') (snd (once ''job'' fragile initial_bus)))) =
     [ListenerCalled 1 7 (Val ''ok'')]"
proof -
  have e: "eventListeners ping_bus = [(''ping'', 0)]"
          "sets ping_bus 0 = [Some \<lparr>w_id = 1, w_eventName = ''ping'', w_listener = greeter,
                                    w_options = None, w_listeners = 0\<rparr>]"
          "next_ref ping_bus = 2" "trace ping_bus = []"
    by (simp_all add: ping_bus_def on_def Let_def initial_bus_def)
  have "loaded initial_bus" by (simp add: loaded_def initial_bus_def)
  then have b: "reachable initial_bus" by (rule reachable_loaded)
  then have "reachable (perform (Call_on ''ping'' greeter None) initial_bus)"
    by (rule reachable_perform)
  then have a: "reachable ping_bus" by (simp add: ping_bus_def)
  have w: "w_id (fst (once ''ping'' fragile ping_bus)) = 2" "l_id fragile = 7"
    by (simp_all add: once_def on_def Let_def e fragile_def)
  have t: "l_run fragile (Val ''boom'') = Throws" "l_run fragile (Val ''ok'') = Returns"
          "l_registers fragile = []"
    by (simp_all add: fragile_def)
  have i: "map_of (eventListeners initial_bus) ''job'' = None" "trace initial_bus = []"
          "next_ref initial_bus = 0"
    by (simp_all add: initial_bus_def)
  show ?thesis
    using once_listener_that_throws [OF a, of fragile "Val ''boom''" "''ping''" "Val ''ok''"]
      once_listener_that_throws [OF b, of fragile "Val ''ok''" "''job''" "Val ''again''"] a
    by (simp add: w t i e(4))
qed


end
